theory Spec2Isabelle
  imports Main "HOL-Library.Sublist"
begin

section \<open>Strings and the runtime's path library\<close>

text \<open>
  The catch-all route handler \<^verbatim>\<open>route.ts\<close> under \<^verbatim>\<open>v2/app/www.anthropic.com\<close> works on
  JavaScript strings and calls Node's \<^verbatim>\<open>path\<close> module. A JavaScript string is modelled
  as a \<open>string\<close>, one \<open>char\<close> per code unit; request paths are URL path names, which
  are ASCII. The functions of the \<^verbatim>\<open>path\<close> module are modelled on the POSIX variant,
  by what Node's implementation computes: it scans the characters between two
  separators as one segment, so the model works on the list of segments.
\<close>

text \<open>\<^verbatim>\<open>s.split("/")\<close>: the segments between the separators, never an empty list.\<close>

fun split_slash :: "string \<Rightarrow> string list" where
  "split_slash [] = [[]]"
| "split_slash (c # cs) =
     (if c = CHR ''/'' then [] # split_slash cs
      else (case split_slash cs of [] \<Rightarrow> [[c]] | s # ss \<Rightarrow> (c # s) # ss))"

text \<open>\<^verbatim>\<open>segs.join("/")\<close>.\<close>

fun join_slash :: "string list \<Rightarrow> string" where
  "join_slash [] = []"
| "join_slash [s] = s"
| "join_slash (s # t # ss) = s @ CHR ''/'' # join_slash (t # ss)"

text \<open>
  Node's \<^verbatim>\<open>normalizeString(path, allowAboveRoot, "/", isPosixPathSeparator)\<close>. The
  result \<open>res\<close> is kept as the reversed list of its segments. An empty segment and
  \<^verbatim>\<open>.\<close> are skipped; \<^verbatim>\<open>..\<close> removes the last segment of \<open>res\<close> unless that is itself
  \<^verbatim>\<open>..\<close> or \<open>res\<close> is empty, where it is appended only if \<open>allowAboveRoot\<close>; every
  other segment is appended.
\<close>

fun normalizeSegs :: "bool \<Rightarrow> string list \<Rightarrow> string list \<Rightarrow> string list" where
  "normalizeSegs allowAboveRoot res [] = rev res"
| "normalizeSegs allowAboveRoot res (s # ss) =
     (if s = [] \<or> s = ''.'' then normalizeSegs allowAboveRoot res ss
      else if s = ''..'' then
        (case res of
           [] \<Rightarrow> normalizeSegs allowAboveRoot (if allowAboveRoot then [''..''] else []) ss
         | r # rs \<Rightarrow>
             if r = ''..''
             then normalizeSegs allowAboveRoot (if allowAboveRoot then ''..'' # res else res) ss
             else normalizeSegs allowAboveRoot rs ss)
      else normalizeSegs allowAboveRoot (s # res) ss)"

definition normalizeString :: "string \<Rightarrow> bool \<Rightarrow> string" where
  "normalizeString path allowAboveRoot =
     join_slash (normalizeSegs allowAboveRoot [] (split_slash path))"

text \<open>\<^verbatim>\<open>path.posix.normalize\<close>.\<close>

definition posix_normalize :: "string \<Rightarrow> string" where
  "posix_normalize path =
     (if path = [] then ''.''
      else
        let isAbsolute = (hd path = CHR ''/'');
            trailingSeparator = (last path = CHR ''/'');
            p = normalizeString path (\<not> isAbsolute)
        in if p = [] then (if isAbsolute then ''/'' else if trailingSeparator then ''./'' else ''.'')
           else
             let p' = (if trailingSeparator then p @ ''/'' else p)
             in if isAbsolute then CHR ''/'' # p' else p')"

text \<open>
  \<^verbatim>\<open>path.posix.join\<close>: the non-empty arguments joined by \<^verbatim>\<open>/\<close>, then normalized;
  \<^verbatim>\<open>.\<close> when there is none.
\<close>

definition posix_join :: "string list \<Rightarrow> string" where
  "posix_join args =
     (case filter (\<lambda>arg. arg \<noteq> []) args of
        [] \<Rightarrow> ''.''
      | a # as \<Rightarrow> posix_normalize (join_slash (a # as)))"

text \<open>\<^verbatim>\<open>path.posix.isAbsolute\<close>.\<close>

definition posix_isAbsolute :: "string \<Rightarrow> bool" where
  "posix_isAbsolute path = (path \<noteq> [] \<and> hd path = CHR ''/'')"

text \<open>The regular-expression replacements \<^verbatim>\<open>.replace(/^\/+/, "")\<close> and \<^verbatim>\<open>.replace(/\/+$/, "")\<close>.\<close>

definition stripLeadingSlashes :: "string \<Rightarrow> string" where
  "stripLeadingSlashes s = dropWhile (\<lambda>c. c = CHR ''/'') s"

definition stripTrailingSlashes :: "string \<Rightarrow> string" where
  "stripTrailingSlashes s = rev (dropWhile (\<lambda>c. c = CHR ''/'') (rev s))"

text \<open>
  \<^verbatim>\<open>path.posix.extname\<close>. Node scans from the end: trailing separators are skipped, the
  last remaining segment is the base name, and the extension runs from the last dot
  of the base name to its end. The result is empty when the base name has no dot,
  when its last dot is its first character, and when the base name is \<^verbatim>\<open>..\<close>.
\<close>

definition basename_ext :: "string \<Rightarrow> string" where
  "basename_ext b =
     (let afterDot = takeWhile (\<lambda>c. c \<noteq> CHR ''.'') (rev b);
          upToDot = dropWhile (\<lambda>c. c \<noteq> CHR ''.'') (rev b)
      in if upToDot = [] then []
         else if tl upToDot = [] then []
         else if b = ''..'' then []
         else CHR ''.'' # rev afterDot)"

definition posix_extname :: "string \<Rightarrow> string" where
  "posix_extname path =
     (let t = stripTrailingSlashes path
      in if t = [] then [] else basename_ext (last (split_slash t)))"

text \<open>\<^verbatim>\<open>String.prototype.toLowerCase\<close> on ASCII: the letters A to Z are mapped, the rest is kept.\<close>

definition lower_char :: "char \<Rightarrow> char" where
  "lower_char c =
     (let n = (of_char c :: nat)
      in if 65 \<le> n \<and> n \<le> 90 then char_of (n + 32) else c)"

definition toLowerCase :: "string \<Rightarrow> string" where
  "toLowerCase s = map lower_char s"

section \<open>The route handler\<close>

subsection \<open>Content types\<close>

definition MIME_BY_EXT :: "(string \<times> string) list" where
  "MIME_BY_EXT =
    [(''.avif'', ''image/avif''),
     (''.css'', ''text/css; charset=utf-8''),
     (''.gif'', ''image/gif''),
     (''.html'', ''text/html; charset=utf-8''),
     (''.ico'', ''image/x-icon''),
     (''.jpeg'', ''image/jpeg''),
     (''.jpg'', ''image/jpeg''),
     (''.js'', ''application/javascript; charset=utf-8''),
     (''.json'', ''application/json; charset=utf-8''),
     (''.map'', ''application/json; charset=utf-8''),
     (''.mp4'', ''video/mp4''),
     (''.pdf'', ''application/pdf''),
     (''.png'', ''image/png''),
     (''.svg'', ''image/svg+xml''),
     (''.txt'', ''text/plain; charset=utf-8''),
     (''.webm'', ''video/webm''),
     (''.webp'', ''image/webp''),
     (''.woff'', ''font/woff''),
     (''.woff2'', ''font/woff2''),
     (''.xml'', ''application/xml; charset=utf-8'')]"

definition getMimeType :: "string \<Rightarrow> string" where
  "getMimeType filePath =
     (let ext = toLowerCase (posix_extname filePath)
      in case map_of MIME_BY_EXT ext of
           Some t \<Rightarrow> t
         | None \<Rightarrow> ''application/octet-stream'')"

subsection \<open>The file system\<close>

text \<open>
  The file system as the handler sees it. A path has an entry when \<^verbatim>\<open>fs.stat\<close>
  succeeds on it and \<^verbatim>\<open>isFile()\<close> is true; a directory or a missing path has none,
  and \<^verbatim>\<open>exists\<close> answers false for both. The entry is what \<^verbatim>\<open>fs.readFile\<close> does on
  that path: it returns the content, or it throws, since a regular file may be
  unreadable (\<^verbatim>\<open>EACCES\<close>) or gone by the time it is read (\<^verbatim>\<open>ENOENT\<close>). The exception
  is an error value with its code and path. On a path without an entry
  \<^verbatim>\<open>fs.readFile\<close> throws as well.
\<close>

datatype error = ErrnoException string string

type_synonym filesystem = "string \<Rightarrow> (error + string) option"

definition exists :: "filesystem \<Rightarrow> string \<Rightarrow> bool" where
  "exists fs filePath = (fs filePath \<noteq> None)"

definition readFile :: "filesystem \<Rightarrow> string \<Rightarrow> error + string" where
  "readFile fs filePath =
     (case fs filePath of
        None \<Rightarrow> Inl (ErrnoException ''ENOENT'' filePath)
      | Some r \<Rightarrow> r)"

subsection \<open>Resolution\<close>

text \<open>
  \<^verbatim>\<open>SNAPSHOT_ROOT = path.join(process.cwd(), "reference", "www.anthropic.com")\<close>; the
  working directory of the process is a parameter.
\<close>

definition SNAPSHOT_ROOT :: "string \<Rightarrow> string" where
  "SNAPSHOT_ROOT cwd = posix_join [cwd, ''reference'', ''www.anthropic.com'']"

definition sanitizePath :: "string \<Rightarrow> string" where
  "sanitizePath rawPath =
     (let normalized = stripLeadingSlashes (posix_normalize (CHR ''/'' # rawPath))
      in if prefix ''../'' normalized \<or> normalized = ''..'' then [] else normalized)"

text \<open>\<^verbatim>\<open>Set.prototype.add\<close> on a set kept in insertion order.\<close>

definition set_add :: "string list \<Rightarrow> string \<Rightarrow> string list" where
  "set_add xs x = (if x \<in> set xs then xs else xs @ [x])"

definition candidates :: "string \<Rightarrow> string list" where
  "candidates requestPath =
     (let cleanedPath = sanitizePath requestPath;
          hasExt = (posix_extname cleanedPath \<noteq> []);
          trimmed = stripTrailingSlashes cleanedPath
      in if trimmed = [] then set_add [] ''index.html''
         else
           let c1 = set_add [] trimmed
           in if \<not> hasExt
              then set_add (set_add c1 (trimmed @ ''.html'')) (posix_join [trimmed, ''index.html''])
              else c1)"

text \<open>The loop over the candidates, for the mirror root \<open>root\<close>.\<close>

fun first_existing :: "string \<Rightarrow> filesystem \<Rightarrow> string list \<Rightarrow> string option" where
  "first_existing root fs [] = None"
| "first_existing root fs (candidate # rest) =
     (let absolute = posix_join [root, candidate]
      in if \<not> prefix root absolute then first_existing root fs rest
         else if exists fs absolute then Some absolute
         else first_existing root fs rest)"

definition resolveSnapshotFile :: "string \<Rightarrow> filesystem \<Rightarrow> string \<Rightarrow> string option" where
  "resolveSnapshotFile cwd fs requestPath =
     first_existing (SNAPSHOT_ROOT cwd) fs (candidates requestPath)"

subsection \<open>Responses\<close>

datatype body = NoBody | TextBody string | FileBody string

record response =
  status :: nat
  headers :: "(string \<times> string) list"
  body :: body

text \<open>
  \<^verbatim>\<open>new Response("Not Found", { status: 404 })\<close>: a string body gives the response the
  content type of plain text.
\<close>

definition notFound :: response where
  "notFound =
     \<lparr>status = 404,
      headers = [(''content-type'', ''text/plain;charset=UTF-8'')],
      body = TextBody ''Not Found''\<rparr>"

text \<open>
  \<^verbatim>\<open>serveFile\<close> awaits \<^verbatim>\<open>fs.readFile\<close> outside any \<^verbatim>\<open>try\<close>: where the read throws, the
  handler throws, and the result is the error instead of a response.
\<close>

definition serveFile :: "string \<Rightarrow> filesystem \<Rightarrow> string \<Rightarrow> bool \<Rightarrow> error + response" where
  "serveFile cwd fs requestPath headOnly =
     (case resolveSnapshotFile cwd fs requestPath of
        None \<Rightarrow> Inr notFound
      | Some snapshotFile \<Rightarrow>
          let hdrs = [(''cache-control'', ''public, max-age=0''),
                      (''content-type'', getMimeType snapshotFile)]
          in if headOnly then Inr \<lparr>status = 200, headers = hdrs, body = NoBody\<rparr>
             else (case readFile fs snapshotFile of
                     Inl e \<Rightarrow> Inl e
                   | Inr b \<Rightarrow> Inr \<lparr>status = 200, headers = hdrs, body = FileBody b\<rparr>))"

text \<open>\<^verbatim>\<open>request.nextUrl.pathname.replace(/^\/www\.anthropic\.com\/?/, "")\<close>.\<close>

definition getRequestPath :: "string \<Rightarrow> string" where
  "getRequestPath pathname =
     (if prefix ''/www.anthropic.com'' pathname
      then
        let r = drop (length ''/www.anthropic.com'') pathname
        in (case r of [] \<Rightarrow> [] | c # cs \<Rightarrow> if c = CHR ''/'' then cs else r)
      else pathname)"

definition GET :: "string \<Rightarrow> filesystem \<Rightarrow> string \<Rightarrow> error + response" where
  "GET cwd fs pathname = serveFile cwd fs (getRequestPath pathname) False"

definition HEAD :: "string \<Rightarrow> filesystem \<Rightarrow> string \<Rightarrow> error + response" where
  "HEAD cwd fs pathname = serveFile cwd fs (getRequestPath pathname) True"

section \<open>Notions used to state the properties\<close>

text \<open>
  A plain segment is a proper file or directory name: not empty, not \<^verbatim>\<open>.\<close>, not
  \<^verbatim>\<open>..\<close>, and without a separator. A plain path is a relative path all of whose
  segments are plain.
\<close>

definition plain :: "string \<Rightarrow> bool" where
  "plain s = (s \<noteq> [] \<and> s \<noteq> ''.'' \<and> s \<noteq> ''..'' \<and> CHR ''/'' \<notin> set s)"

definition plain_path :: "string \<Rightarrow> bool" where
  "plain_path c = (\<forall>s \<in> set (split_slash c). plain s)"

text \<open>The segments that are left of a request path after normalization rooted at \<^verbatim>\<open>/\<close>.\<close>

definition cleanSegs :: "string \<Rightarrow> string list" where
  "cleanSegs p = normalizeSegs False [] (split_slash p)"

text \<open>The segments of the mirror root.\<close>

definition rootSegs :: "string \<Rightarrow> string list" where
  "rootSegs cwd = cleanSegs cwd @ [''reference'', ''www.anthropic.com'']"

text \<open>
  A location lies within the root when it is the root, a separator and a relative
  path that has no empty, \<^verbatim>\<open>.\<close> or \<^verbatim>\<open>..\<close> segment, so that no segment of it leads
  back out of the root.
\<close>

definition within_root :: "string \<Rightarrow> string \<Rightarrow> bool" where
  "within_root root location =
     (prefix (root @ ''/'') location \<and>
      (\<forall>s \<in> set (split_slash (drop (length root + 1) location)).
         s \<noteq> [] \<and> s \<noteq> ''.'' \<and> s \<noteq> ''..''))"

text \<open>
  The file path with its extension lower-cased: the extension that \<open>posix_extname\<close>
  finds, in place, before any trailing separators.
\<close>

definition lowerCaseExtension :: "string \<Rightarrow> string" where
  "lowerCaseExtension filePath =
     (let ext = posix_extname filePath;
          t = stripTrailingSlashes filePath
      in take (length t - length ext) t @ toLowerCase ext @ drop (length t) filePath)"

subsection \<open>The fallback rule read on the request path as it is\<close>

text \<open>
  The ordered fallback with every step taken on the request path unmodified: the path,
  the path followed by \<^verbatim>\<open>.html\<close> and by \<^verbatim>\<open>/index.html\<close> when it has no extension, and
  \<^verbatim>\<open>index.html\<close> for the empty or root path. Each candidate is looked up under the
  mirror root. This is the rule in the words of the specification, to be compared
  with \<open>resolveSnapshotFile\<close>.
\<close>

definition spec_candidates :: "string \<Rightarrow> string list" where
  "spec_candidates path =
     [path] @
     (if posix_extname path = [] then [path @ ''.html'', path @ ''/index.html''] else []) @
     (if path = [] \<or> path = ''/'' then [''index.html''] else [])"

definition spec_resolveSnapshotFile :: "string \<Rightarrow> filesystem \<Rightarrow> string \<Rightarrow> string option" where
  "spec_resolveSnapshotFile cwd fs path =
     map_option (\<lambda>c. posix_join [SNAPSHOT_ROOT cwd, c])
       (find (\<lambda>c. exists fs (posix_join [SNAPSHOT_ROOT cwd, c])) (spec_candidates path))"

subsection \<open>Example mirrors\<close>

text \<open>Small file systems for a process started in \<^verbatim>\<open>/srv\<close>.\<close>

definition mirror_passwd :: filesystem where
  "mirror_passwd =
     [''/srv/reference/www.anthropic.com/etc/passwd.html'' \<mapsto> Inr ''<html>'']"

definition mirror_index :: filesystem where
  "mirror_index =
     [''/srv/reference/www.anthropic.com/index.html'' \<mapsto> Inr ''<html>home</html>'']"

text \<open>A mirror whose \<^verbatim>\<open>index.html\<close> is a regular file that the process may not read.\<close>

definition mirror_unreadable :: filesystem where
  "mirror_unreadable =
     [''/srv/reference/www.anthropic.com/index.html'' \<mapsto>
        Inl (ErrnoException ''EACCES'' ''/srv/reference/www.anthropic.com/index.html'')]"

definition mirror_a :: filesystem where
  "mirror_a =
     [''/srv/reference/www.anthropic.com/a.html'' \<mapsto> Inr ''<html>a</html>'',
      ''/srv/reference/www.anthropic.com/a/index.html'' \<mapsto> Inr ''<html>a index</html>'']"

definition mirror_ab :: filesystem where
  "mirror_ab =
     [''/srv/reference/www.anthropic.com/a/b.html'' \<mapsto> Inr ''<html>b</html>'',
      ''/srv/reference/www.anthropic.com/a/b/index.html'' \<mapsto> Inr ''<html>b index</html>'']"

definition mirror_b_index :: filesystem where
  "mirror_b_index =
     [''/srv/reference/www.anthropic.com/a/b/index.html'' \<mapsto> Inr ''<html>b index</html>'']"

definition mirror_logo :: filesystem where
  "mirror_logo = [''/srv/reference/www.anthropic.com/logo.PNG'' \<mapsto> Inr ''PNG'']"

section \<open>Splitting, joining and normalizing\<close>

lemma split_slash_nonempty: "split_slash s \<noteq> []"
  by (induction s) (auto split: list.splits)

lemma split_slash_no_slash: "x \<in> set (split_slash s) \<Longrightarrow> CHR ''/'' \<notin> set x"
  by (induction s arbitrary: x) (auto split: list.splits if_splits)

lemma split_slash_noslash_id: "CHR ''/'' \<notin> set s \<Longrightarrow> split_slash s = [s]"
  by (induction s) auto

lemma split_slash_append_sep:
  "split_slash (a @ CHR ''/'' # b) = split_slash a @ split_slash b"
  by (induction a) (auto split: list.splits simp: split_slash_nonempty)

lemma split_slash_append_noslash:
  "CHR ''/'' \<notin> set e \<Longrightarrow>
   split_slash (t @ e) = butlast (split_slash t) @ [last (split_slash t) @ e]"
proof (induction t)
  case Nil
  then show ?case by (simp add: split_slash_noslash_id)
next
  case (Cons c t)
  then show ?case
    by (cases "split_slash t") (auto simp: split_slash_nonempty split: list.splits)
qed

lemma join_split_slash: "join_slash (split_slash s) = s"
proof (induction s)
  case Nil
  show ?case by simp
next
  case (Cons c s)
  show ?case
  proof (cases "split_slash s")
    case Nil
    then show ?thesis using split_slash_nonempty by blast
  next
    case (Cons x xs)
    with Cons.IH show ?thesis by (cases xs) auto
  qed
qed

lemma join_slash_Cons: "ys \<noteq> [] \<Longrightarrow> join_slash (x # ys) = x @ CHR ''/'' # join_slash ys"
  by (cases ys) auto

lemma join_slash_append:
  "xs \<noteq> [] \<Longrightarrow> ys \<noteq> [] \<Longrightarrow> join_slash (xs @ ys) = join_slash xs @ CHR ''/'' # join_slash ys"
proof (induction xs rule: join_slash.induct)
  case 1
  then show ?case by simp
next
  case (2 s)
  then show ?case by (simp add: join_slash_Cons)
next
  case (3 s t ss)
  then show ?case by simp
qed

lemma split_join_slash:
  "xs \<noteq> [] \<Longrightarrow> \<forall>x \<in> set xs. CHR ''/'' \<notin> set x \<Longrightarrow> split_slash (join_slash xs) = xs"
proof (induction xs rule: join_slash.induct)
  case 1
  then show ?case by simp
next
  case (2 s)
  then show ?case by (simp add: split_slash_noslash_id)
next
  case (3 s t ss)
  then show ?case by (simp add: split_slash_append_sep split_slash_noslash_id)
qed

lemma normalizeSegs_append:
  "normalizeSegs a acc (xs @ ys) = normalizeSegs a (rev (normalizeSegs a acc xs)) ys"
  by (induction a acc xs rule: normalizeSegs.induct) (auto split: list.splits)

lemma normalizeSegs_plain:
  "\<forall>x \<in> set xs. plain x \<Longrightarrow> normalizeSegs a acc xs = rev acc @ xs"
proof (induction xs arbitrary: acc)
  case Nil
  show ?case by simp
next
  case (Cons x xs)
  from Cons.prems have px: "x \<noteq> []" "x \<noteq> ''.''" "x \<noteq> ''..''"
    by (simp_all add: plain_def)
  from Cons.prems have "\<forall>x \<in> set xs. plain x" by simp
  from Cons.IH [OF this, of "x # acc"] px show ?case by simp
qed

lemma normalizeSegs_abs_step:
  assumes "\<forall>x \<in> set acc. plain x" and "CHR ''/'' \<notin> set s"
  shows "\<exists>acc'. (\<forall>x \<in> set acc'. plain x) \<and>
           normalizeSegs False acc (s # ss) = normalizeSegs False acc' ss"
proof (cases "s = [] \<or> s = ''.''")
  case True
  then have "normalizeSegs False acc (s # ss) = normalizeSegs False acc ss" by auto
  with assms(1) show ?thesis by blast
next
  case skip: False
  show ?thesis
  proof (cases "s = ''..''")
    case True
    show ?thesis
    proof (cases acc)
      case Nil
      with True have "normalizeSegs False acc (s # ss) = normalizeSegs False [] ss" by simp
      then show ?thesis by (intro exI [of _ "[]"]) simp
    next
      case (Cons r rs)
      show ?thesis
      proof (cases "r = ''..''")
        case True
        with \<open>s = ''..''\<close> Cons
        have "normalizeSegs False acc (s # ss) = normalizeSegs False acc ss" by simp
        with assms(1) show ?thesis by blast
      next
        case False
        with \<open>s = ''..''\<close> Cons
        have "normalizeSegs False acc (s # ss) = normalizeSegs False rs ss" by simp
        moreover from assms(1) Cons have "\<forall>x \<in> set rs. plain x" by simp
        ultimately show ?thesis by blast
      qed
    qed
  next
    case False
    with skip have "normalizeSegs False acc (s # ss) = normalizeSegs False (s # acc) ss"
      by simp
    moreover from skip False assms have "\<forall>x \<in> set (s # acc). plain x"
      by (simp add: plain_def)
    ultimately show ?thesis by blast
  qed
qed

lemma normalizeSegs_abs_plain:
  "\<forall>x \<in> set acc. plain x \<Longrightarrow> \<forall>x \<in> set xs. CHR ''/'' \<notin> set x \<Longrightarrow>
   \<forall>x \<in> set (normalizeSegs False acc xs). plain x"
proof (induction xs arbitrary: acc)
  case Nil
  then show ?case by simp
next
  case (Cons s ss)
  from Cons.prems have "CHR ''/'' \<notin> set s" by simp
  from normalizeSegs_abs_step [OF Cons.prems(1) this, of ss]
  obtain acc' where a: "\<forall>x \<in> set acc'. plain x"
    and e: "normalizeSegs False acc (s # ss) = normalizeSegs False acc' ss" by blast
  from Cons.prems have "\<forall>x \<in> set ss. CHR ''/'' \<notin> set x" by simp
  from Cons.IH [OF a this] e show ?case by simp
qed

lemma cleanSegs_plain: "x \<in> set (cleanSegs p) \<Longrightarrow> plain x"
proof -
  have "\<forall>x \<in> set (split_slash p). CHR ''/'' \<notin> set x"
    using split_slash_no_slash by blast
  from normalizeSegs_abs_plain [of "[]", OF _ this]
  show "x \<in> set (cleanSegs p) \<Longrightarrow> plain x" by (simp add: cleanSegs_def)
qed

lemma join_plain_nonempty:
  "xs \<noteq> [] \<Longrightarrow> \<forall>x \<in> set xs. plain x \<Longrightarrow> join_slash xs \<noteq> []"
  by (cases xs rule: join_slash.cases) (auto simp: plain_def)

lemma join_plain_hd:
  "xs \<noteq> [] \<Longrightarrow> \<forall>x \<in> set xs. plain x \<Longrightarrow> hd (join_slash xs) \<noteq> CHR ''/''"
proof (cases xs rule: join_slash.cases)
  case 1
  assume "xs \<noteq> []" with 1 show ?thesis by simp
next
  case (2 s)
  assume "\<forall>x \<in> set xs. plain x"
  with 2 have "s \<noteq> []" "CHR ''/'' \<notin> set s" by (simp_all add: plain_def)
  with 2 show ?thesis by (cases s) auto
next
  case (3 s t ss)
  assume "\<forall>x \<in> set xs. plain x"
  with 3 have "s \<noteq> []" "CHR ''/'' \<notin> set s" by (simp_all add: plain_def)
  with 3 show ?thesis by (cases s) auto
qed

lemma join_plain_last:
  "xs \<noteq> [] \<Longrightarrow> \<forall>x \<in> set xs. plain x \<Longrightarrow> last (join_slash xs) \<noteq> CHR ''/''"
proof (induction xs rule: join_slash.induct)
  case 1
  then show ?case by simp
next
  case (2 s)
  then have "s \<noteq> []" "CHR ''/'' \<notin> set s" by (simp_all add: plain_def)
  then show ?case using last_in_set [of s] by (auto simp del: last_in_set)
next
  case (3 s t ss)
  then have "last (join_slash (t # ss)) \<noteq> CHR ''/''" by simp
  moreover from 3 have "join_slash (t # ss) \<noteq> []"
    using join_plain_nonempty [of "t # ss"] by simp
  ultimately show ?case by simp
qed

lemma stripTrailingSlashes_id:
  "s = [] \<or> last s \<noteq> CHR ''/'' \<Longrightarrow> stripTrailingSlashes s = s"
  by (cases s rule: rev_cases) (auto simp: stripTrailingSlashes_def)

lemma stripTrailingSlashes_snoc:
  "stripTrailingSlashes (s @ ''/'') = stripTrailingSlashes s"
  by (simp add: stripTrailingSlashes_def)

lemma stripLeadingSlashes_Cons:
  "s = [] \<or> hd s \<noteq> CHR ''/'' \<Longrightarrow> stripLeadingSlashes (CHR ''/'' # s) = s"
  by (cases s) (auto simp: stripLeadingSlashes_def)

lemma posix_extname_snoc: "posix_extname (s @ ''/'') = posix_extname s"
  by (simp add: posix_extname_def stripTrailingSlashes_snoc)

lemma hd_split_dotdot:
  "prefix ''../'' n \<or> n = ''..'' \<Longrightarrow> hd (split_slash n) = ''..''"
proof (erule disjE)
  assume "prefix ''../'' n"
  then obtain r where "n = ''..'' @ CHR ''/'' # r" by (auto simp: prefix_def)
  then have "split_slash n = split_slash ''..'' @ split_slash r"
    by (simp only: split_slash_append_sep)
  then show ?thesis by simp
next
  assume "n = ''..''"
  then show ?thesis by simp
qed

lemma hd_split_join:
  assumes "xs \<noteq> []" "\<forall>x \<in> set xs. plain x"
  shows "hd (split_slash (join_slash xs)) = hd xs"
    and "hd (split_slash (join_slash xs @ ''/'')) = hd xs"
proof -
  from assms have ns: "\<forall>x \<in> set xs. CHR ''/'' \<notin> set x" by (simp add: plain_def)
  from split_join_slash [OF assms(1) ns] show "hd (split_slash (join_slash xs)) = hd xs"
    by simp
  have "split_slash (join_slash xs @ CHR ''/'' # []) = split_slash (join_slash xs) @ split_slash []"
    by (rule split_slash_append_sep)
  with split_join_slash [OF assms(1) ns] assms(1)
  show "hd (split_slash (join_slash xs @ ''/'')) = hd xs" by simp
qed

lemma normalizeString_abs:
  "normalizeString (CHR ''/'' # p) False = join_slash (cleanSegs p)"
  by (simp add: normalizeString_def cleanSegs_def)

lemma join_cleanSegs_empty: "join_slash (cleanSegs p) = [] \<longleftrightarrow> cleanSegs p = []"
  using join_plain_nonempty [of "cleanSegs p"] cleanSegs_plain by auto

lemma sanitizePath_eq:
  "sanitizePath p =
     (if cleanSegs p \<noteq> [] \<and> last (CHR ''/'' # p) = CHR ''/''
      then join_slash (cleanSegs p) @ ''/'' else join_slash (cleanSegs p))"
proof (cases "cleanSegs p = []")
  case True
  then have "posix_normalize (CHR ''/'' # p) = ''/''"
    by (simp add: posix_normalize_def normalizeString_abs Let_def)
  then show ?thesis using True
    by (simp add: sanitizePath_def stripLeadingSlashes_def)
next
  case False
  let ?t = "join_slash (cleanSegs p)"
  let ?n = "if last (CHR ''/'' # p) = CHR ''/'' then ?t @ ''/'' else ?t"
  have pl: "\<forall>x \<in> set (cleanSegs p). plain x" using cleanSegs_plain by blast
  have t: "?t \<noteq> []" using join_plain_nonempty [OF False pl] .
  have h: "hd ?t \<noteq> CHR ''/''" using join_plain_hd [OF False pl] .
  have "posix_normalize (CHR ''/'' # p) = CHR ''/'' # ?n"
    using t by (simp add: posix_normalize_def normalizeString_abs Let_def)
  moreover have "stripLeadingSlashes (CHR ''/'' # ?n) = ?n"
    using t h by (intro stripLeadingSlashes_Cons) auto
  ultimately have n: "stripLeadingSlashes (posix_normalize (CHR ''/'' # p)) = ?n" by simp
  have "hd (split_slash ?n) = hd (cleanSegs p)"
    using hd_split_join [OF False pl] by simp
  moreover have "hd (cleanSegs p) \<noteq> ''..''"
    using False pl by (cases "cleanSegs p") (auto simp: plain_def)
  ultimately have "\<not> (prefix ''../'' ?n \<or> ?n = ''..'')"
    using hd_split_dotdot [of ?n] by metis
  with n have "sanitizePath p = ?n"
    unfolding sanitizePath_def Let_def by presburger
  with False show ?thesis by simp
qed

lemma trimmed_sanitizePath:
  "stripTrailingSlashes (sanitizePath p) = join_slash (cleanSegs p)"
proof (cases "cleanSegs p = []")
  case True
  then show ?thesis by (simp add: sanitizePath_eq stripTrailingSlashes_def)
next
  case False
  have pl: "\<forall>x \<in> set (cleanSegs p). plain x" using cleanSegs_plain by blast
  have "stripTrailingSlashes (join_slash (cleanSegs p)) = join_slash (cleanSegs p)"
    using join_plain_last [OF False pl] by (intro stripTrailingSlashes_id) simp
  then show ?thesis by (simp add: sanitizePath_eq stripTrailingSlashes_snoc)
qed

lemma extname_sanitizePath:
  "posix_extname (sanitizePath p) = posix_extname (join_slash (cleanSegs p))"
  by (simp add: sanitizePath_eq posix_extname_snoc)

lemma plain_path_join:
  "xs \<noteq> [] \<Longrightarrow> \<forall>x \<in> set xs. plain x \<Longrightarrow> plain_path (join_slash xs)"
  using split_join_slash [of xs] by (simp add: plain_path_def plain_def)

lemma plain_path_facts:
  assumes "plain_path c"
  shows "c \<noteq> []" and "hd c \<noteq> CHR ''/''" and "last c \<noteq> CHR ''/''"
proof -
  have ne: "split_slash c \<noteq> []" by (rule split_slash_nonempty)
  have pl: "\<forall>x \<in> set (split_slash c). plain x" using assms by (simp add: plain_path_def)
  have c: "join_slash (split_slash c) = c" by (rule join_split_slash)
  from join_plain_nonempty [OF ne pl] c show "c \<noteq> []" by simp
  from join_plain_hd [OF ne pl] c show "hd c \<noteq> CHR ''/''" by simp
  from join_plain_last [OF ne pl] c show "last c \<noteq> CHR ''/''" by simp
qed

lemma posix_normalize_plain_path:
  assumes "plain_path c"
  shows "posix_normalize c = c"
proof -
  have pl: "\<forall>x \<in> set (split_slash c). plain x" using assms by (simp add: plain_path_def)
  have "normalizeString c True = c"
    by (simp add: normalizeString_def normalizeSegs_plain [OF pl] join_split_slash)
  with plain_path_facts [OF assms] show ?thesis
    by (simp add: posix_normalize_def Let_def)
qed

lemma posix_normalize_abs:
  "path \<noteq> [] \<Longrightarrow> hd path = CHR ''/'' \<Longrightarrow> last path \<noteq> CHR ''/'' \<Longrightarrow>
   normalizeString path False = q \<Longrightarrow> q \<noteq> [] \<Longrightarrow> posix_normalize path = CHR ''/'' # q"
  by (simp add: posix_normalize_def Let_def)

lemma posix_normalize_under:
  assumes R: "\<forall>x \<in> set R. plain x" "R \<noteq> []" and c: "plain_path c"
  shows "posix_normalize (CHR ''/'' # join_slash R @ CHR ''/'' # c)
           = CHR ''/'' # join_slash R @ CHR ''/'' # c"
proof -
  let ?A = "CHR ''/'' # join_slash R"
  have ns: "\<forall>x \<in> set R. CHR ''/'' \<notin> set x" using R by (simp add: plain_def)
  have pl: "\<forall>x \<in> set (split_slash c). plain x" using c by (simp add: plain_path_def)
  have "split_slash (?A @ CHR ''/'' # c) = split_slash ?A @ split_slash c"
    by (rule split_slash_append_sep)
  also have "split_slash ?A = [] # R" using split_join_slash [OF R(2) ns] by simp
  finally have s: "split_slash (?A @ CHR ''/'' # c) = [] # (R @ split_slash c)" by simp
  have "\<forall>x \<in> set (R @ split_slash c). plain x" using R pl by auto
  from normalizeSegs_plain [OF this, of False "[]"]
  have "normalizeSegs False [] ([] # (R @ split_slash c)) = R @ split_slash c" by simp
  with s have "normalizeString (?A @ CHR ''/'' # c) False = join_slash (R @ split_slash c)"
    by (simp add: normalizeString_def)
  also have "\<dots> = join_slash R @ CHR ''/'' # join_slash (split_slash c)"
    using R(2) split_slash_nonempty by (intro join_slash_append)
  finally have n: "normalizeString (?A @ CHR ''/'' # c) False = join_slash R @ CHR ''/'' # c"
    by (simp add: join_split_slash)
  have "last (?A @ CHR ''/'' # c) = last c" using plain_path_facts(1) [OF c] by simp
  with plain_path_facts(3) [OF c] have l: "last (?A @ CHR ''/'' # c) \<noteq> CHR ''/''" by simp
  have "posix_normalize (?A @ CHR ''/'' # c) = CHR ''/'' # (join_slash R @ CHR ''/'' # c)"
    using l n by (intro posix_normalize_abs) simp_all
  then show ?thesis by simp
qed

lemma rootSegs_plain: "x \<in> set (rootSegs cwd) \<Longrightarrow> plain x"
  using cleanSegs_plain by (auto simp: rootSegs_def plain_def)

lemma rootSegs_nonempty: "rootSegs cwd \<noteq> []"
  by (simp add: rootSegs_def)

lemma split_reference: "split_slash ''reference/www.anthropic.com'' = [''reference'', ''www.anthropic.com'']"
  by simp

lemma SNAPSHOT_ROOT_eq:
  assumes "cwd \<noteq> []" "hd cwd = CHR ''/''"
  shows "SNAPSHOT_ROOT cwd = CHR ''/'' # join_slash (rootSegs cwd)"
proof -
  let ?j = "cwd @ CHR ''/'' # ''reference/www.anthropic.com''"
  have j: "posix_join [cwd, ''reference'', ''www.anthropic.com''] = posix_normalize ?j"
    using assms(1) by (simp add: posix_join_def join_slash_Cons)
  have "split_slash ?j = split_slash cwd @ split_slash ''reference/www.anthropic.com''"
    by (rule split_slash_append_sep)
  then have s: "split_slash ?j = split_slash cwd @ [''reference'', ''www.anthropic.com'']"
    by (simp only: split_reference)
  have "\<forall>x \<in> set [''reference'', ''www.anthropic.com'']. plain x" by (simp add: plain_def)
  from normalizeSegs_plain [OF this]
  have "normalizeSegs False [] (split_slash ?j) = rootSegs cwd"
    unfolding s normalizeSegs_append [of False "[]" "split_slash cwd"]
    by (simp add: rootSegs_def cleanSegs_def)
  then have n: "normalizeString ?j False = join_slash (rootSegs cwd)"
    by (simp add: normalizeString_def)
  have ne: "join_slash (rootSegs cwd) \<noteq> []"
    using join_plain_nonempty [OF rootSegs_nonempty] rootSegs_plain by blast
  have "hd ?j = CHR ''/''" using assms by (cases cwd) auto
  moreover have "last ?j \<noteq> CHR ''/''" by simp
  moreover have "?j \<noteq> []" by simp
  ultimately have "posix_normalize ?j = CHR ''/'' # join_slash (rootSegs cwd)"
    using n ne by (intro posix_normalize_abs)
  with j show ?thesis by (simp add: SNAPSHOT_ROOT_def)
qed

lemma absolute_candidate:
  assumes "cwd \<noteq> []" "hd cwd = CHR ''/''" and c: "plain_path c"
  shows "posix_join [SNAPSHOT_ROOT cwd, c] = SNAPSHOT_ROOT cwd @ CHR ''/'' # c"
proof -
  have r: "SNAPSHOT_ROOT cwd = CHR ''/'' # join_slash (rootSegs cwd)"
    using assms(1,2) by (rule SNAPSHOT_ROOT_eq)
  have "posix_join [SNAPSHOT_ROOT cwd, c] = posix_normalize (SNAPSHOT_ROOT cwd @ CHR ''/'' # c)"
    using plain_path_facts(1) [OF c] by (simp add: posix_join_def r)
  also have "\<dots> = SNAPSHOT_ROOT cwd @ CHR ''/'' # c"
    unfolding r using posix_normalize_under [OF _ rootSegs_nonempty c, of cwd] rootSegs_plain
    by simp
  finally show ?thesis .
qed

lemma first_existing_eq:
  assumes "cwd \<noteq> []" "hd cwd = CHR ''/''" and "\<forall>c \<in> set cs. plain_path c"
  shows "first_existing (SNAPSHOT_ROOT cwd) fs cs =
           map_option (\<lambda>c. SNAPSHOT_ROOT cwd @ CHR ''/'' # c)
             (find (\<lambda>c. exists fs (SNAPSHOT_ROOT cwd @ CHR ''/'' # c)) cs)"
  using assms(3)
proof (induction cs)
  case Nil
  show ?case by simp
next
  case (Cons c cs)
  then have "plain_path c" by simp
  from absolute_candidate [OF assms(1,2) this] Cons show ?case
    by (simp add: Let_def)
qed

lemma posix_join_index:
  assumes "plain_path t"
  shows "posix_join [t, ''index.html''] = t @ ''/index.html''"
proof -
  have "split_slash (t @ CHR ''/'' # ''index.html'') = split_slash t @ split_slash ''index.html''"
    by (rule split_slash_append_sep)
  then have "plain_path (t @ CHR ''/'' # ''index.html'')"
    using assms by (simp add: plain_path_def plain_def)
  from posix_normalize_plain_path [OF this] plain_path_facts(1) [OF assms]
  show ?thesis by (simp add: posix_join_def)
qed

lemma candidates_eq:
  "candidates p =
     (let t = join_slash (cleanSegs p)
      in if t = [] then [''index.html'']
         else if posix_extname t = [] then [t, t @ ''.html'', t @ ''/index.html'']
         else [t])"
proof (cases "cleanSegs p = []")
  case True
  then show ?thesis
    by (simp add: candidates_def trimmed_sanitizePath set_add_def)
next
  case False
  let ?t = "join_slash (cleanSegs p)"
  have pl: "\<forall>x \<in> set (cleanSegs p). plain x" using cleanSegs_plain by blast
  have t: "?t \<noteq> []" using join_plain_nonempty [OF False pl] .
  have "plain_path ?t" using plain_path_join [OF False pl] .
  then have j: "posix_join [?t, ''index.html''] = ?t @ ''/index.html''"
    by (rule posix_join_index)
  show ?thesis
    using t by (simp add: candidates_def trimmed_sanitizePath extname_sanitizePath
        set_add_def j Let_def)
qed

lemma plain_path_index: "plain_path ''index.html''"
  by (simp add: plain_path_def plain_def)

lemma plain_path_html:
  assumes "plain_path t"
  shows "plain_path (t @ ''.html'')"
proof -
  have e: "CHR ''/'' \<notin> set ''.html''" by simp
  have s: "split_slash (t @ ''.html'') = butlast (split_slash t) @ [last (split_slash t) @ ''.html'']"
    using split_slash_append_noslash [OF e] .
  have "last (split_slash t) \<in> set (split_slash t)"
    using split_slash_nonempty by simp
  with assms have "plain (last (split_slash t))" by (simp add: plain_path_def)
  then have "plain (last (split_slash t) @ ''.html'')" by (auto simp: plain_def)
  moreover have "\<forall>x \<in> set (butlast (split_slash t)). plain x"
    using assms in_set_butlastD by (fastforce simp: plain_path_def)
  ultimately show ?thesis unfolding plain_path_def s by simp
qed

lemma plain_path_slash_index:
  assumes "plain_path t"
  shows "plain_path (t @ ''/index.html'')"
proof -
  have "split_slash (t @ CHR ''/'' # ''index.html'') = split_slash t @ split_slash ''index.html''"
    by (rule split_slash_append_sep)
  then show ?thesis using assms by (simp add: plain_path_def plain_def)
qed

lemma candidates_plain: "c \<in> set (candidates p) \<Longrightarrow> plain_path c"
proof (cases "cleanSegs p = []")
  case True
  assume "c \<in> set (candidates p)"
  with True show ?thesis by (simp add: candidates_eq plain_path_index)
next
  case False
  assume c: "c \<in> set (candidates p)"
  have pl: "\<forall>x \<in> set (cleanSegs p). plain x" using cleanSegs_plain by blast
  have t: "plain_path (join_slash (cleanSegs p))" using plain_path_join [OF False pl] .
  from c plain_path_facts(1) [OF t] t plain_path_html [OF t] plain_path_slash_index [OF t]
  show ?thesis by (auto simp: candidates_eq Let_def split: if_splits)
qed

lemma resolveSnapshotFile_eq:
  assumes "posix_isAbsolute cwd"
  shows "resolveSnapshotFile cwd fs p =
           map_option (\<lambda>c. SNAPSHOT_ROOT cwd @ CHR ''/'' # c)
             (find (\<lambda>c. exists fs (SNAPSHOT_ROOT cwd @ CHR ''/'' # c)) (candidates p))"
proof -
  from assms have a: "cwd \<noteq> []" "hd cwd = CHR ''/''" by (simp_all add: posix_isAbsolute_def)
  have "\<forall>c \<in> set (candidates p). plain_path c" using candidates_plain by blast
  from first_existing_eq [OF a this] show ?thesis by (simp add: resolveSnapshotFile_def)
qed

lemma cleanSegs_snoc_slash: "cleanSegs (p @ ''/'') = cleanSegs p"
proof -
  have "split_slash (p @ CHR ''/'' # []) = split_slash p @ split_slash []"
    by (rule split_slash_append_sep)
  then have "cleanSegs (p @ ''/'') = normalizeSegs False [] (split_slash p @ [[]])"
    by (simp add: cleanSegs_def)
  also have "\<dots> = cleanSegs p"
    unfolding normalizeSegs_append [of False "[]" "split_slash p"] by (simp add: cleanSegs_def)
  finally show ?thesis .
qed

lemma cleanSegs_join: "cleanSegs (join_slash (cleanSegs p)) = cleanSegs p"
proof (cases "cleanSegs p = []")
  case True
  then show ?thesis by (simp add: cleanSegs_def)
next
  case False
  have pl: "\<forall>x \<in> set (cleanSegs p). plain x" using cleanSegs_plain by blast
  then have ns: "\<forall>x \<in> set (cleanSegs p). CHR ''/'' \<notin> set x" by (simp add: plain_def)
  have "cleanSegs (join_slash (cleanSegs p)) = normalizeSegs False [] (cleanSegs p)"
    unfolding cleanSegs_def [of "join_slash (cleanSegs p)"]
    by (simp only: split_join_slash [OF False ns])
  also have "\<dots> = cleanSegs p" using normalizeSegs_plain [OF pl, of False "[]"] by simp
  finally show ?thesis .
qed

lemma cleanSegs_sanitizePath: "cleanSegs (sanitizePath p) = cleanSegs p"
  by (simp add: sanitizePath_eq cleanSegs_snoc_slash cleanSegs_join)

lemma candidates_sanitizePath: "candidates (sanitizePath p) = candidates p"
  by (simp only: candidates_eq cleanSegs_sanitizePath)

lemma candidates_snoc_slash: "candidates (p @ ''/'') = candidates p"
  by (simp only: candidates_eq cleanSegs_snoc_slash)

lemma sanitizePath_normalize:
  "sanitizePath p = stripLeadingSlashes (posix_normalize (CHR ''/'' # p))"
proof -
  let ?n = "stripLeadingSlashes (posix_normalize (CHR ''/'' # p))"
  show ?thesis
  proof (cases "prefix ''../'' ?n \<or> ?n = ''..''")
    case False
    then show ?thesis unfolding sanitizePath_def Let_def by presburger
  next
    case True
    then have s: "sanitizePath p = []" unfolding sanitizePath_def Let_def by presburger
    show ?thesis
    proof (cases "cleanSegs p = []")
      case True
      then have "posix_normalize (CHR ''/'' # p) = ''/''"
        by (simp add: posix_normalize_def normalizeString_abs Let_def)
      with s show ?thesis by (simp add: stripLeadingSlashes_def)
    next
      case False
      have pl: "\<forall>x \<in> set (cleanSegs p). plain x" using cleanSegs_plain by blast
      from s False join_plain_nonempty [OF False pl] show ?thesis
        by (simp add: sanitizePath_eq split: if_splits)
    qed
  qed
qed

lemma normalizeSegs_dotdots: "normalizeSegs False [] (replicate k ''..'') = []"
  by (induction k) simp_all

lemma split_join_dotdots:
  "split_slash (join_slash (replicate (Suc k) ''..'')) = replicate (Suc k) ''..''"
  by (rule split_join_slash) auto

lemma cleanSegs_dotdots: "cleanSegs (join_slash (replicate (Suc k) ''..'')) = []"
  unfolding cleanSegs_def split_join_dotdots by (rule normalizeSegs_dotdots)

lemma candidates_dotdots:
  "candidates (join_slash (replicate (Suc k) ''..'')) = candidates []"
  by (simp only: candidates_eq cleanSegs_dotdots) (simp add: cleanSegs_def)

lemma first_existing_exists:
  "first_existing root fs cs = Some f \<Longrightarrow> exists fs f"
  by (induction cs) (auto simp: Let_def split: if_splits)

lemma resolveSnapshotFile_candidate:
  assumes "posix_isAbsolute cwd" and "resolveSnapshotFile cwd fs p = Some loc"
  shows "\<exists>c \<in> set (candidates p). loc = SNAPSHOT_ROOT cwd @ CHR ''/'' # c \<and> exists fs loc"
proof -
  from assms(2) obtain c
    where f: "find (\<lambda>c. exists fs (SNAPSHOT_ROOT cwd @ CHR ''/'' # c)) (candidates p) = Some c"
      and l: "loc = SNAPSHOT_ROOT cwd @ CHR ''/'' # c"
    unfolding resolveSnapshotFile_eq [OF assms(1)] by auto
  from f have "c \<in> set (candidates p)" "exists fs (SNAPSHOT_ROOT cwd @ CHR ''/'' # c)"
    by (auto simp: find_Some_iff)
  with l show ?thesis by blast
qed

section \<open>A resolved file exists\<close>

lemma resolveSnapshotFile_exists:
  "resolveSnapshotFile cwd fs p = Some f \<Longrightarrow> exists fs f"
  unfolding resolveSnapshotFile_def by (rule first_existing_exists)

section \<open>Responses\<close>

lemma serveFile_head:
  assumes "resolveSnapshotFile cwd fs p = Some f"
  shows "serveFile cwd fs p True =
       Inr \<lparr>status = 200,
            headers = [(''cache-control'', ''public, max-age=0''),
                       (''content-type'', getMimeType f)],
            body = NoBody\<rparr>"
  using assms by (simp add: serveFile_def)

lemma serveFile_get_read:
  assumes "resolveSnapshotFile cwd fs p = Some f" and "readFile fs f = Inr content"
  shows "serveFile cwd fs p False =
       Inr \<lparr>status = 200,
            headers = [(''cache-control'', ''public, max-age=0''),
                       (''content-type'', getMimeType f)],
            body = FileBody content\<rparr>"
  using assms by (simp add: serveFile_def)

lemma serveFile_unresolved:
  "resolveSnapshotFile cwd fs p = None \<Longrightarrow> serveFile cwd fs p headOnly = Inr notFound"
  by (simp add: serveFile_def)

section \<open>Extensions and lower case\<close>

lemma lower_char_upper:
  assumes "65 \<le> (of_char c :: nat)" "(of_char c :: nat) \<le> 90"
  shows "(of_char (lower_char c) :: nat) = of_char c + 32"
  using assms by (simp add: lower_char_def Let_def)

lemma lower_char_other:
  "\<not> (65 \<le> (of_char c :: nat) \<and> (of_char c :: nat) \<le> 90) \<Longrightarrow> lower_char c = c"
  by (auto simp: lower_char_def Let_def)

lemma lower_char_idem: "lower_char (lower_char c) = lower_char c"
proof (cases "65 \<le> (of_char c :: nat) \<and> (of_char c :: nat) \<le> 90")
  case True
  then have "(of_char (lower_char c) :: nat) = of_char c + 32" by (simp add: lower_char_upper)
  with True have "\<not> (65 \<le> (of_char (lower_char c) :: nat) \<and> (of_char (lower_char c) :: nat) \<le> 90)"
    by simp
  then show ?thesis by (rule lower_char_other)
next
  case False
  then show ?thesis by (simp add: lower_char_other)
qed

lemma lower_char_dot: "lower_char c = CHR ''.'' \<longleftrightarrow> c = CHR ''.''"
proof (cases "65 \<le> (of_char c :: nat) \<and> (of_char c :: nat) \<le> 90")
  case True
  then have "(of_char (lower_char c) :: nat) = of_char c + 32" by (simp add: lower_char_upper)
  with True have "(of_char (lower_char c) :: nat) \<noteq> of_char CHR ''.''" by simp
  moreover from True have "(of_char c :: nat) \<noteq> of_char CHR ''.''" by simp
  ultimately show ?thesis by auto
next
  case False
  then show ?thesis by (simp add: lower_char_other)
qed

lemma lower_char_slash: "lower_char c = CHR ''/'' \<longleftrightarrow> c = CHR ''/''"
proof (cases "65 \<le> (of_char c :: nat) \<and> (of_char c :: nat) \<le> 90")
  case True
  then have "(of_char (lower_char c) :: nat) = of_char c + 32" by (simp add: lower_char_upper)
  with True have "(of_char (lower_char c) :: nat) \<noteq> of_char CHR ''/''" by simp
  moreover from True have "(of_char c :: nat) \<noteq> of_char CHR ''/''" by simp
  ultimately show ?thesis by auto
next
  case False
  then show ?thesis by (simp add: lower_char_other)
qed

lemma toLowerCase_idem: "toLowerCase (toLowerCase s) = toLowerCase s"
  by (simp add: toLowerCase_def lower_char_idem)

lemma toLowerCase_no_dot: "CHR ''.'' \<notin> set s \<Longrightarrow> CHR ''.'' \<notin> set (toLowerCase s)"
proof (induction s)
  case Nil
  show ?case by (simp add: toLowerCase_def)
next
  case (Cons a s)
  then have "a \<noteq> CHR ''.''" by auto
  then have "lower_char a \<noteq> CHR ''.''" by (simp add: lower_char_dot)
  moreover from Cons have "CHR ''.'' \<notin> set (toLowerCase s)" by simp
  ultimately show ?case by (auto simp: toLowerCase_def)
qed

lemma toLowerCase_no_slash: "CHR ''/'' \<notin> set s \<Longrightarrow> CHR ''/'' \<notin> set (toLowerCase s)"
proof (induction s)
  case Nil
  show ?case by (simp add: toLowerCase_def)
next
  case (Cons a s)
  then have "a \<noteq> CHR ''/''" by auto
  then have "lower_char a \<noteq> CHR ''/''" by (simp add: lower_char_slash)
  moreover from Cons have "CHR ''/'' \<notin> set (toLowerCase s)" by simp
  ultimately show ?case by (auto simp: toLowerCase_def)
qed

lemma basename_ext_shape:
  assumes "basename_ext b = e" "e \<noteq> []"
  shows "\<exists>q x. b = q @ CHR ''.'' # x \<and> e = CHR ''.'' # x \<and> CHR ''.'' \<notin> set x \<and> q \<noteq> [] \<and> b \<noteq> ''..''"
proof -
  let ?after = "takeWhile (\<lambda>c. c \<noteq> CHR ''.'') (rev b)"
  let ?upto = "dropWhile (\<lambda>c. c \<noteq> CHR ''.'') (rev b)"
  have u: "?upto \<noteq> []"
  proof
    assume "?upto = []"
    then have "basename_ext b = []" by (simp add: basename_ext_def)
    with assms show False by simp
  qed
  have t: "tl ?upto \<noteq> []"
  proof
    assume "tl ?upto = []"
    then have "basename_ext b = []" by (simp add: basename_ext_def)
    with assms show False by simp
  qed
  have d: "b \<noteq> ''..''"
  proof
    assume "b = ''..''"
    then have "basename_ext b = []" by (simp add: basename_ext_def)
    with assms show False by simp
  qed
  from u t d have "basename_ext b = CHR ''.'' # rev ?after"
    by (simp add: basename_ext_def Let_def)
  with assms(1) have e: "e = CHR ''.'' # rev ?after" by simp
  from u have h: "hd ?upto = CHR ''.''"
    using hd_dropWhile [of "\<lambda>c. c \<noteq> CHR ''.''" "rev b"] by simp
  have "rev b = ?after @ ?upto" by simp
  also have "?upto = CHR ''.'' # tl ?upto" using u h by (cases ?upto) simp_all
  finally have "rev (rev b) = rev (?after @ CHR ''.'' # tl ?upto)" by (rule arg_cong)
  then have b: "b = rev (tl ?upto) @ CHR ''.'' # rev ?after" by simp
  have n: "CHR ''.'' \<notin> set (rev ?after)"
    using set_takeWhileD [of "CHR ''.''" "\<lambda>c. c \<noteq> CHR ''.''" "rev b"] by auto
  from t have q: "rev (tl ?upto) \<noteq> []" by simp
  from b e n q d show ?thesis by blast
qed

lemma basename_ext_intro:
  assumes "CHR ''.'' \<notin> set x" "q \<noteq> []" "q @ CHR ''.'' # x \<noteq> ''..''"
  shows "basename_ext (q @ CHR ''.'' # x) = CHR ''.'' # x"
proof -
  have r: "rev (q @ CHR ''.'' # x) = rev x @ CHR ''.'' # rev q" by simp
  have "takeWhile (\<lambda>c. c \<noteq> CHR ''.'') (rev x @ CHR ''.'' # rev q)
          = rev x @ takeWhile (\<lambda>c. c \<noteq> CHR ''.'') (CHR ''.'' # rev q)"
    by (rule takeWhile_append2) (use assms(1) in auto)
  then have a: "takeWhile (\<lambda>c. c \<noteq> CHR ''.'') (rev x @ CHR ''.'' # rev q) = rev x" by simp
  have "dropWhile (\<lambda>c. c \<noteq> CHR ''.'') (rev x @ CHR ''.'' # rev q)
          = dropWhile (\<lambda>c. c \<noteq> CHR ''.'') (CHR ''.'' # rev q)"
    by (rule dropWhile_append2) (use assms(1) in auto)
  then have d: "dropWhile (\<lambda>c. c \<noteq> CHR ''.'') (rev x @ CHR ''.'' # rev q) = CHR ''.'' # rev q"
    by simp
  have "basename_ext (q @ CHR ''.'' # x) =
          (if CHR ''.'' # rev q = [] then []
           else if tl (CHR ''.'' # rev q) = [] then []
           else if q @ CHR ''.'' # x = ''..'' then []
           else CHR ''.'' # rev (rev x))"
    unfolding basename_ext_def Let_def r a d ..
  with assms(2,3) show ?thesis by simp
qed

lemma basename_ext_lower:
  assumes "basename_ext (q @ e) = e" "e \<noteq> []"
  shows "basename_ext (q @ toLowerCase e) = toLowerCase e"
proof -
  from basename_ext_shape [OF assms] obtain q' x
    where b: "q @ e = q' @ CHR ''.'' # x" and e: "e = CHR ''.'' # x"
      and x: "CHR ''.'' \<notin> set x" and q': "q' \<noteq> []" and d: "q @ e \<noteq> ''..''" by blast
  from b e have qq: "q' = q" by simp
  have "lower_char CHR ''.'' = CHR ''.''" using lower_char_dot [of "CHR ''.''"] by simp
  then have l: "toLowerCase e = CHR ''.'' # toLowerCase x"
    by (simp add: e toLowerCase_def)
  have nd: "q @ CHR ''.'' # toLowerCase x \<noteq> ''..''"
  proof
    assume a: "q @ CHR ''.'' # toLowerCase x = ''..''"
    then have "length (q @ CHR ''.'' # toLowerCase x) = length ''..''" by (rule arg_cong)
    then have "length q + length (toLowerCase x) = 1" by simp
    moreover from q' qq have "0 < length q" by simp
    ultimately have "length (toLowerCase x) = 0" by linarith
    then have "x = []" by (simp add: toLowerCase_def)
    with a have "q @ CHR ''.'' # x = ''..''" by (simp add: toLowerCase_def)
    with d e show False by simp
  qed
  from q' qq have "q \<noteq> []" by simp
  from basename_ext_intro [OF toLowerCase_no_dot [OF x] this nd] l show ?thesis by simp
qed

lemma stripTrailingSlashes_decomp:
  "f = stripTrailingSlashes f @ drop (length (stripTrailingSlashes f)) f"
  "set (drop (length (stripTrailingSlashes f)) f) \<subseteq> {CHR ''/''}"
proof -
  let ?P = "\<lambda>c. c = CHR ''/''"
  have "rev (dropWhile ?P (rev f)) @ rev (takeWhile ?P (rev f))
      = rev (takeWhile ?P (rev f) @ dropWhile ?P (rev f))" by (simp only: rev_append)
  also have "\<dots> = rev (rev f)" by (simp only: takeWhile_dropWhile_id)
  finally have f: "f = stripTrailingSlashes f @ rev (takeWhile ?P (rev f))"
    by (simp only: stripTrailingSlashes_def rev_rev_ident)
  then have "drop (length (stripTrailingSlashes f)) f
      = drop (length (stripTrailingSlashes f)) (stripTrailingSlashes f @ rev (takeWhile ?P (rev f)))"
    by simp
  then have d: "drop (length (stripTrailingSlashes f)) f = rev (takeWhile ?P (rev f))" by simp
  from f d show "f = stripTrailingSlashes f @ drop (length (stripTrailingSlashes f)) f" by simp
  have "set (rev (takeWhile ?P (rev f))) \<subseteq> {CHR ''/''}"
    using set_takeWhileD [of _ ?P "rev f"] by auto
  with d show "set (drop (length (stripTrailingSlashes f)) f) \<subseteq> {CHR ''/''}" by simp
qed

lemma stripTrailingSlashes_append:
  assumes "set s \<subseteq> {CHR ''/''}" and "w = [] \<or> last w \<noteq> CHR ''/''"
  shows "stripTrailingSlashes (w @ s) = w"
proof -
  let ?P = "\<lambda>c. c = CHR ''/''"
  have "dropWhile ?P (rev s @ rev w) = dropWhile ?P (rev w)"
    by (rule dropWhile_append2) (use assms(1) in auto)
  then have "stripTrailingSlashes (w @ s) = stripTrailingSlashes w"
    by (simp add: stripTrailingSlashes_def)
  with stripTrailingSlashes_id [OF assms(2)] show ?thesis by simp
qed

lemma last_split_slash_append:
  "CHR ''/'' \<notin> set e \<Longrightarrow> last (split_slash (u @ e)) = last (split_slash u) @ e"
  by (simp add: split_slash_append_noslash)

lemma last_split_slash_suffix: "\<exists>pre. t = pre @ last (split_slash t)"
proof (cases "butlast (split_slash t) = []")
  case True
  then have "split_slash t = [last (split_slash t)]"
    using split_slash_nonempty [of t] append_butlast_last_id [of "split_slash t"] by simp
  then have "join_slash (split_slash t) = last (split_slash t)"
    using join_slash.simps(2) [of "last (split_slash t)"] by simp
  then have "t = [] @ last (split_slash t)" by (simp add: join_split_slash)
  then show ?thesis by blast
next
  case False
  have "split_slash t = butlast (split_slash t) @ [last (split_slash t)]"
    using split_slash_nonempty [of t] by simp
  then have "join_slash (split_slash t) =
      join_slash (butlast (split_slash t) @ [last (split_slash t)])" by simp
  also have "\<dots> = join_slash (butlast (split_slash t)) @ CHR ''/'' # join_slash [last (split_slash t)]"
    using False by (intro join_slash_append) simp_all
  finally have "t = (join_slash (butlast (split_slash t)) @ ''/'') @ last (split_slash t)"
    by (simp add: join_split_slash)
  then show ?thesis by blast
qed

lemma posix_extname_suffix:
  assumes "posix_extname f = e" "e \<noteq> []"
  shows "\<exists>u. stripTrailingSlashes f = u @ e \<and> CHR ''/'' \<notin> set e \<and>
             basename_ext (last (split_slash u) @ e) = e"
proof -
  let ?t = "stripTrailingSlashes f"
  let ?b = "last (split_slash ?t)"
  from assms have t: "?t \<noteq> []" by (auto simp: posix_extname_def Let_def)
  with assms(1) have be: "basename_ext ?b = e" by (simp add: posix_extname_def Let_def)
  from basename_ext_shape [OF be assms(2)] obtain q x
    where b: "?b = q @ CHR ''.'' # x" and e: "e = CHR ''.'' # x" by blast
  have "?b \<in> set (split_slash ?t)" using split_slash_nonempty [of ?t] by simp
  then have "CHR ''/'' \<notin> set ?b" by (rule split_slash_no_slash)
  with b e have ns: "CHR ''/'' \<notin> set e" by simp
  from last_split_slash_suffix [of ?t] obtain pre where p: "?t = pre @ ?b" by blast
  with b e have u: "?t = (pre @ q) @ e" by simp
  from last_split_slash_append [OF ns, of "pre @ q"] u
  have "last (split_slash (pre @ q)) @ e = ?b" by simp
  with be have "basename_ext (last (split_slash (pre @ q)) @ e) = e" by simp
  with u ns show ?thesis by blast
qed

lemma posix_extname_lowerCaseExtension:
  "posix_extname (lowerCaseExtension f) = toLowerCase (posix_extname f)"
proof (cases "posix_extname f = []")
  case True
  then have "lowerCaseExtension f = f"
    using stripTrailingSlashes_decomp(1) [of f]
    by (simp add: lowerCaseExtension_def Let_def toLowerCase_def)
  with True show ?thesis by (simp add: toLowerCase_def)
next
  case False
  let ?e = "posix_extname f"
  let ?t = "stripTrailingSlashes f"
  let ?s = "drop (length ?t) f"
  from posix_extname_suffix [OF refl False] obtain u
    where u: "?t = u @ ?e" and ns: "CHR ''/'' \<notin> set ?e"
      and be: "basename_ext (last (split_slash u) @ ?e) = ?e" by blast
  from u have "take (length ?t - length ?e) ?t = u" by simp
  then have g: "lowerCaseExtension f = (u @ toLowerCase ?e) @ ?s"
    by (simp add: lowerCaseExtension_def Let_def)
  have le: "toLowerCase ?e \<noteq> []" using False by (simp add: toLowerCase_def)
  have lns: "CHR ''/'' \<notin> set (toLowerCase ?e)" using ns by (rule toLowerCase_no_slash)
  have "last (u @ toLowerCase ?e) = last (toLowerCase ?e)" using le by simp
  moreover have "last (toLowerCase ?e) \<in> set (toLowerCase ?e)" using le by simp
  ultimately have "last (u @ toLowerCase ?e) \<noteq> CHR ''/''" using lns by metis
  then have st: "stripTrailingSlashes (lowerCaseExtension f) = u @ toLowerCase ?e"
    unfolding g using stripTrailingSlashes_decomp(2) [of f]
    by (intro stripTrailingSlashes_append) simp_all
  have "posix_extname (lowerCaseExtension f) = basename_ext (last (split_slash (u @ toLowerCase ?e)))"
    using le by (simp add: posix_extname_def st Let_def)
  also have "\<dots> = basename_ext (last (split_slash u) @ toLowerCase ?e)"
    by (simp only: last_split_slash_append [OF lns])
  also have "\<dots> = toLowerCase ?e" using be False by (rule basename_ext_lower)
  finally show ?thesis .
qed

lemma MIME_BY_EXT_distinct: "distinct (map fst MIME_BY_EXT)"
  by (simp add: MIME_BY_EXT_def)

lemma candidates_ab: "candidates ''a/b'' = [''a/b'', ''a/b.html'', ''a/b/index.html'']"
  by code_simp

section \<open>The claims\<close>

subsection \<open>The resolved location stays within the mirror root\<close>

text \<open>
  Claim C1. For every request path, also one with \<^verbatim>\<open>..\<close> segments, and every file
  system, \<open>resolveSnapshotFile\<close> returns null or an absolute location within the
  mirror root: the root, a separator and a relative path without \<^verbatim>\<open>..\<close> segments.
  The working directory of the process is an absolute path.
\<close>

theorem resolved_location_within_root:
  assumes "posix_isAbsolute cwd" and "resolveSnapshotFile cwd fs p = Some loc"
  shows "posix_isAbsolute loc \<and> within_root (SNAPSHOT_ROOT cwd) loc"
proof -
  from resolveSnapshotFile_candidate [OF assms] obtain c
    where c: "c \<in> set (candidates p)" and l: "loc = SNAPSHOT_ROOT cwd @ CHR ''/'' # c" by blast
  from assms(1) have r: "SNAPSHOT_ROOT cwd = CHR ''/'' # join_slash (rootSegs cwd)"
    by (simp add: posix_isAbsolute_def SNAPSHOT_ROOT_eq)
  have "plain_path c" using c by (rule candidates_plain)
  then have "\<forall>s \<in> set (split_slash c). s \<noteq> [] \<and> s \<noteq> ''.'' \<and> s \<noteq> ''..''"
    by (simp add: plain_path_def plain_def)
  then have "within_root (SNAPSHOT_ROOT cwd) loc"
    by (simp add: within_root_def l)
  moreover have "posix_isAbsolute loc" by (simp add: l r posix_isAbsolute_def)
  ultimately show ?thesis by simp
qed

theorem resolved_location_within_root_witness:
  "posix_isAbsolute ''/srv'' \<and>
   resolveSnapshotFile ''/srv'' mirror_passwd ''../../etc/passwd'' =
     Some ''/srv/reference/www.anthropic.com/etc/passwd.html'' \<and>
   posix_isAbsolute ''/srv/reference/www.anthropic.com/etc/passwd.html'' \<and>
   within_root (SNAPSHOT_ROOT ''/srv'') ''/srv/reference/www.anthropic.com/etc/passwd.html''"
proof -
  have a: "posix_isAbsolute ''/srv''" by (simp add: posix_isAbsolute_def)
  have r: "resolveSnapshotFile ''/srv'' mirror_passwd ''../../etc/passwd'' =
     Some ''/srv/reference/www.anthropic.com/etc/passwd.html''"
    by code_simp
  from resolved_location_within_root [OF a r] a r show ?thesis by simp
qed

subsection \<open>Traversal components\<close>

text \<open>
  Claim C2, as stated, fails. The request path \<^verbatim>\<open>../index.html\<close> has a parent-directory
  component that would lead out of the mirror root if it were joined to the root as
  it is. It is not treated as unresolved: the server answers it with status 200 and
  the body of the root's \<^verbatim>\<open>index.html\<close>.
\<close>

theorem traversal_not_rejected:
  "\<not> prefix (SNAPSHOT_ROOT ''/srv'') (posix_join [SNAPSHOT_ROOT ''/srv'', ''../index.html'']) \<and>
   serveFile ''/srv'' mirror_index ''../index.html'' False =
     Inr \<lparr>status = 200,
          headers = [(''cache-control'', ''public, max-age=0''),
                     (''content-type'', ''text/html; charset=utf-8'')],
          body = FileBody ''<html>home</html>''\<rparr>"
  by code_simp

text \<open>
  Claim C2, amended. A request path with parent-directory components is not
  rejected: the server answers it exactly as it answers its sanitized form, in which
  normalization rooted at \<^verbatim>\<open>/\<close> has absorbed the components. A path that does not
  resolve, with or without such components, gets the one 404 response and no
  exception. A path that resolves gets status 200 on HEAD, and on GET when the
  resolved file can be read.
\<close>

theorem traversal_served_as_sanitized:
  "serveFile cwd fs p headOnly = serveFile cwd fs (sanitizePath p) headOnly
   \<and> (resolveSnapshotFile cwd fs p = None \<longrightarrow> serveFile cwd fs p headOnly = Inr notFound)
   \<and> (resolveSnapshotFile cwd fs p \<noteq> None \<longrightarrow>
        (\<exists>r. serveFile cwd fs p True = Inr r \<and> status r = 200))
   \<and> (\<forall>f content. resolveSnapshotFile cwd fs p = Some f \<and> readFile fs f = Inr content \<longrightarrow>
        (\<exists>r. serveFile cwd fs p False = Inr r \<and> status r = 200))"
proof (intro conjI impI allI)
  have "resolveSnapshotFile cwd fs (sanitizePath p) = resolveSnapshotFile cwd fs p"
    by (simp only: resolveSnapshotFile_def candidates_sanitizePath)
  then show "serveFile cwd fs p headOnly = serveFile cwd fs (sanitizePath p) headOnly"
    by (simp add: serveFile_def)
next
  assume "resolveSnapshotFile cwd fs p = None"
  then show "serveFile cwd fs p headOnly = Inr notFound" by (rule serveFile_unresolved)
next
  assume "resolveSnapshotFile cwd fs p \<noteq> None"
  then obtain f where "resolveSnapshotFile cwd fs p = Some f" by blast
  from serveFile_head [OF this]
  show "\<exists>r. serveFile cwd fs p True = Inr r \<and> status r = 200" by simp
next
  fix f content
  assume "resolveSnapshotFile cwd fs p = Some f \<and> readFile fs f = Inr content"
  then have "resolveSnapshotFile cwd fs p = Some f" and "readFile fs f = Inr content"
    by simp_all
  from serveFile_get_read [OF this]
  show "\<exists>r. serveFile cwd fs p False = Inr r \<and> status r = 200" by simp
qed

theorem traversal_served_as_sanitized_witness:
  "resolveSnapshotFile ''/srv'' mirror_index ''../../etc/passwd'' = None \<and>
   serveFile ''/srv'' mirror_index ''../../etc/passwd'' False = Inr notFound \<and>
   serveFile ''/srv'' mirror_index ''../../etc/passwd'' False =
     serveFile ''/srv'' mirror_index ''etc/passwd'' False \<and>
   resolveSnapshotFile ''/srv'' mirror_index ''../index.html'' =
     Some ''/srv/reference/www.anthropic.com/index.html'' \<and>
   readFile mirror_index ''/srv/reference/www.anthropic.com/index.html'' =
     Inr ''<html>home</html>'' \<and>
   (\<exists>r. serveFile ''/srv'' mirror_index ''../index.html'' True = Inr r \<and> status r = 200) \<and>
   (\<exists>r. serveFile ''/srv'' mirror_index ''../index.html'' False = Inr r \<and> status r = 200)"
proof -
  have n: "resolveSnapshotFile ''/srv'' mirror_index ''../../etc/passwd'' = None" by code_simp
  have s: "sanitizePath ''../../etc/passwd'' = ''etc/passwd''" by code_simp
  note t = traversal_served_as_sanitized [of "''/srv''" mirror_index "''../../etc/passwd''" False]
  from t n have 1: "serveFile ''/srv'' mirror_index ''../../etc/passwd'' False = Inr notFound"
    by blast
  from t have "serveFile ''/srv'' mirror_index ''../../etc/passwd'' False =
     serveFile ''/srv'' mirror_index (sanitizePath ''../../etc/passwd'') False" by blast
  then have 2: "serveFile ''/srv'' mirror_index ''../../etc/passwd'' False =
     serveFile ''/srv'' mirror_index ''etc/passwd'' False" by (simp only: s)
  have r: "resolveSnapshotFile ''/srv'' mirror_index ''../index.html'' =
     Some ''/srv/reference/www.anthropic.com/index.html''" by code_simp
  have c: "readFile mirror_index ''/srv/reference/www.anthropic.com/index.html'' =
     Inr ''<html>home</html>''" by (simp add: readFile_def mirror_index_def)
  note u = traversal_served_as_sanitized [of "''/srv''" mirror_index "''../index.html''" False]
  from r have "resolveSnapshotFile ''/srv'' mirror_index ''../index.html'' \<noteq> None" by simp
  with u have 3: "\<exists>r. serveFile ''/srv'' mirror_index ''../index.html'' True = Inr r \<and> status r = 200"
    by blast
  from u r c have 4: "\<exists>r. serveFile ''/srv'' mirror_index ''../index.html'' False = Inr r \<and> status r = 200"
    by blast
  from n 1 2 r c 3 4 show ?thesis by blast
qed

subsection \<open>The ordered fallback\<close>

text \<open>
  Claim C3, as stated, fails. With \<^verbatim>\<open>a.html\<close> and \<^verbatim>\<open>a/index.html\<close> in the mirror, the
  fallback taken on the request path \<^verbatim>\<open>a/\<close> unmodified finds \<^verbatim>\<open>a/index.html\<close> (the
  path itself and the path followed by \<^verbatim>\<open>.html\<close> name no file), while the resolver
  returns \<^verbatim>\<open>a.html\<close>.
\<close>

theorem fallback_on_unmodified_path_fails:
  "resolveSnapshotFile ''/srv'' mirror_a ''a/'' = Some ''/srv/reference/www.anthropic.com/a.html'' \<and>
   spec_resolveSnapshotFile ''/srv'' mirror_a ''a/'' =
     Some ''/srv/reference/www.anthropic.com/a/index.html''"
  by code_simp

text \<open>
  Claim C3, amended. The resolver returns the first existing candidate of the ordered
  fallback taken on the cleaned path, that is the sanitized request path without its
  trailing separators: \<^verbatim>\<open>index.html\<close> alone when the cleaned path is empty; otherwise
  the cleaned path, then, only if it has no extension, the cleaned path followed by
  \<^verbatim>\<open>.html\<close> and the cleaned path followed by \<^verbatim>\<open>/index.html\<close>. It returns null if no
  candidate exists.
\<close>

theorem ordered_fallback:
  assumes "posix_isAbsolute cwd"
  shows "resolveSnapshotFile cwd fs p =
     (let t = stripTrailingSlashes (sanitizePath p);
          cands = (if t = [] then [''index.html'']
                   else if posix_extname t = [] then [t, t @ ''.html'', t @ ''/index.html'']
                   else [t])
      in map_option (\<lambda>c. SNAPSHOT_ROOT cwd @ ''/'' @ c)
           (find (\<lambda>c. exists fs (SNAPSHOT_ROOT cwd @ ''/'' @ c)) cands))"
  unfolding resolveSnapshotFile_eq [OF assms] candidates_eq trimmed_sanitizePath
  by (simp add: Let_def)

theorem ordered_fallback_witness:
  "posix_isAbsolute ''/srv'' \<and>
   resolveSnapshotFile ''/srv'' mirror_a ''a/'' = Some ''/srv/reference/www.anthropic.com/a.html''"
proof -
  have a: "posix_isAbsolute ''/srv''" by (simp add: posix_isAbsolute_def)
  have "(let t = stripTrailingSlashes (sanitizePath ''a/'');
          cands = (if t = [] then [''index.html'']
                   else if posix_extname t = [] then [t, t @ ''.html'', t @ ''/index.html'']
                   else [t])
      in map_option (\<lambda>c. SNAPSHOT_ROOT ''/srv'' @ ''/'' @ c)
           (find (\<lambda>c. exists mirror_a (SNAPSHOT_ROOT ''/srv'' @ ''/'' @ c)) cands))
     = Some ''/srv/reference/www.anthropic.com/a.html''"
    by code_simp
  with ordered_fallback [OF a, of mirror_a "''a/''"] a show ?thesis by simp
qed

text \<open>
  Claim C4, as stated, fails. With both \<^verbatim>\<open>a/b.html\<close> and \<^verbatim>\<open>a/b/index.html\<close> in the
  mirror, the request path \<^verbatim>\<open>a/b/\<close> resolves to \<^verbatim>\<open>a/b.html\<close>, not to the index.
\<close>

theorem trailing_slash_does_not_select_index:
  "exists mirror_ab ''/srv/reference/www.anthropic.com/a/b.html'' \<and>
   exists mirror_ab ''/srv/reference/www.anthropic.com/a/b/index.html'' \<and>
   resolveSnapshotFile ''/srv'' mirror_ab ''a/b/'' =
     Some ''/srv/reference/www.anthropic.com/a/b.html''"
  by code_simp

text \<open>
  Claim C4, amended. If the mirror contains \<^verbatim>\<open>a/b.html\<close> and no regular file \<^verbatim>\<open>a/b\<close>,
  the request paths \<^verbatim>\<open>a/b\<close> and \<^verbatim>\<open>a/b/\<close> both resolve to \<^verbatim>\<open>a/b.html\<close>, whether or
  not \<^verbatim>\<open>a/b/index.html\<close> exists. Each of them resolves to \<^verbatim>\<open>a/b/index.html\<close> exactly
  when that file exists and neither \<^verbatim>\<open>a/b\<close> nor \<^verbatim>\<open>a/b.html\<close> does.
\<close>

theorem html_before_index:
  assumes "posix_isAbsolute cwd"
  shows "(exists fs (SNAPSHOT_ROOT cwd @ ''/a/b.html'') \<and>
          \<not> exists fs (SNAPSHOT_ROOT cwd @ ''/a/b'') \<longrightarrow>
            resolveSnapshotFile cwd fs ''a/b'' = Some (SNAPSHOT_ROOT cwd @ ''/a/b.html'') \<and>
            resolveSnapshotFile cwd fs ''a/b/'' = Some (SNAPSHOT_ROOT cwd @ ''/a/b.html''))
       \<and> ((resolveSnapshotFile cwd fs ''a/b'' = Some (SNAPSHOT_ROOT cwd @ ''/a/b/index.html'')) =
            (exists fs (SNAPSHOT_ROOT cwd @ ''/a/b/index.html'') \<and>
             \<not> exists fs (SNAPSHOT_ROOT cwd @ ''/a/b'') \<and>
             \<not> exists fs (SNAPSHOT_ROOT cwd @ ''/a/b.html'')))
       \<and> ((resolveSnapshotFile cwd fs ''a/b/'' = Some (SNAPSHOT_ROOT cwd @ ''/a/b/index.html'')) =
            (exists fs (SNAPSHOT_ROOT cwd @ ''/a/b/index.html'') \<and>
             \<not> exists fs (SNAPSHOT_ROOT cwd @ ''/a/b'') \<and>
             \<not> exists fs (SNAPSHOT_ROOT cwd @ ''/a/b.html'')))"
proof -
  have "candidates (''a/b'' @ ''/'') = candidates ''a/b''" by (rule candidates_snoc_slash)
  then have c: "candidates ''a/b/'' = [''a/b'', ''a/b.html'', ''a/b/index.html'']"
    by (simp add: candidates_ab)
  have r: "resolveSnapshotFile cwd fs ''a/b/'' = resolveSnapshotFile cwd fs ''a/b''"
    by (simp only: resolveSnapshotFile_def c candidates_ab)
  have v: "resolveSnapshotFile cwd fs ''a/b'' =
      (if exists fs (SNAPSHOT_ROOT cwd @ ''/a/b'') then Some (SNAPSHOT_ROOT cwd @ ''/a/b'')
       else if exists fs (SNAPSHOT_ROOT cwd @ ''/a/b.html'')
         then Some (SNAPSHOT_ROOT cwd @ ''/a/b.html'')
       else if exists fs (SNAPSHOT_ROOT cwd @ ''/a/b/index.html'')
         then Some (SNAPSHOT_ROOT cwd @ ''/a/b/index.html'')
       else None)"
    unfolding resolveSnapshotFile_eq [OF assms] candidates_ab by simp
  show ?thesis unfolding r unfolding v by simp
qed

theorem html_before_index_witness:
  "posix_isAbsolute ''/srv'' \<and>
   exists mirror_ab (SNAPSHOT_ROOT ''/srv'' @ ''/a/b.html'') \<and>
   \<not> exists mirror_ab (SNAPSHOT_ROOT ''/srv'' @ ''/a/b'') \<and>
   resolveSnapshotFile ''/srv'' mirror_ab ''a/b'' = Some (SNAPSHOT_ROOT ''/srv'' @ ''/a/b.html'') \<and>
   resolveSnapshotFile ''/srv'' mirror_ab ''a/b/'' = Some (SNAPSHOT_ROOT ''/srv'' @ ''/a/b.html'') \<and>
   exists mirror_b_index (SNAPSHOT_ROOT ''/srv'' @ ''/a/b/index.html'') \<and>
   \<not> exists mirror_b_index (SNAPSHOT_ROOT ''/srv'' @ ''/a/b'') \<and>
   \<not> exists mirror_b_index (SNAPSHOT_ROOT ''/srv'' @ ''/a/b.html'') \<and>
   resolveSnapshotFile ''/srv'' mirror_b_index ''a/b'' =
     Some (SNAPSHOT_ROOT ''/srv'' @ ''/a/b/index.html'') \<and>
   resolveSnapshotFile ''/srv'' mirror_b_index ''a/b/'' =
     Some (SNAPSHOT_ROOT ''/srv'' @ ''/a/b/index.html'')"
proof -
  have a: "posix_isAbsolute ''/srv''" by (simp add: posix_isAbsolute_def)
  have e: "exists mirror_ab (SNAPSHOT_ROOT ''/srv'' @ ''/a/b.html'')" by code_simp
  have n: "\<not> exists mirror_ab (SNAPSHOT_ROOT ''/srv'' @ ''/a/b'')" by code_simp
  have e': "exists mirror_b_index (SNAPSHOT_ROOT ''/srv'' @ ''/a/b/index.html'')" by code_simp
  have n': "\<not> exists mirror_b_index (SNAPSHOT_ROOT ''/srv'' @ ''/a/b'')" by code_simp
  have m': "\<not> exists mirror_b_index (SNAPSHOT_ROOT ''/srv'' @ ''/a/b.html'')" by code_simp
  from html_before_index [OF a, of mirror_ab] e n
  have 1: "resolveSnapshotFile ''/srv'' mirror_ab ''a/b'' = Some (SNAPSHOT_ROOT ''/srv'' @ ''/a/b.html'') \<and>
   resolveSnapshotFile ''/srv'' mirror_ab ''a/b/'' = Some (SNAPSHOT_ROOT ''/srv'' @ ''/a/b.html'')"
    by blast
  from html_before_index [OF a, of mirror_b_index] e' n' m'
  have 2: "resolveSnapshotFile ''/srv'' mirror_b_index ''a/b'' =
     Some (SNAPSHOT_ROOT ''/srv'' @ ''/a/b/index.html'') \<and>
   resolveSnapshotFile ''/srv'' mirror_b_index ''a/b/'' =
     Some (SNAPSHOT_ROOT ''/srv'' @ ''/a/b/index.html'')"
    by blast
  from a e n e' n' m' 1 2 show ?thesis by blast
qed

subsection \<open>Responses to GET and HEAD\<close>

text \<open>
  Claim C5, as stated, fails. In a mirror whose \<^verbatim>\<open>index.html\<close> is a regular file that
  cannot be read, the root path resolves, and GET returns no response with status
  200 and the file body: the read error of \<^verbatim>\<open>fs.readFile\<close> is thrown.
\<close>

theorem get_of_unreadable_file_throws:
  "resolveSnapshotFile ''/srv'' mirror_unreadable (getRequestPath ''/www.anthropic.com/'')
     = Some ''/srv/reference/www.anthropic.com/index.html'' \<and>
   GET ''/srv'' mirror_unreadable ''/www.anthropic.com/'' =
     Inl (ErrnoException ''EACCES'' ''/srv/reference/www.anthropic.com/index.html'')"
  by code_simp

text \<open>
  Claim C5, amended. For every request path that resolves, HEAD returns status 200,
  the headers \<^verbatim>\<open>cache-control: public, max-age=0\<close> and \<^verbatim>\<open>content-type\<close>, and no body;
  GET returns the same status and headers and the content of the file, provided the
  resolved file can be read. For every request path that does not resolve, GET and
  HEAD return status 404 with the plain-text body \<^verbatim>\<open>Not Found\<close>.
\<close>

theorem get_head_responses:
  "(\<forall>f. resolveSnapshotFile cwd fs (getRequestPath pathname) = Some f \<longrightarrow>
         HEAD cwd fs pathname =
           Inr \<lparr>status = 200,
                headers = [(''cache-control'', ''public, max-age=0''),
                           (''content-type'', getMimeType f)],
                body = NoBody\<rparr> \<and>
         (\<forall>content. readFile fs f = Inr content \<longrightarrow>
            GET cwd fs pathname =
              Inr \<lparr>status = 200,
                   headers = [(''cache-control'', ''public, max-age=0''),
                              (''content-type'', getMimeType f)],
                   body = FileBody content\<rparr>))
   \<and> (resolveSnapshotFile cwd fs (getRequestPath pathname) = None \<longrightarrow>
         GET cwd fs pathname =
           Inr \<lparr>status = 404,
                headers = [(''content-type'', ''text/plain;charset=UTF-8'')],
                body = TextBody ''Not Found''\<rparr> \<and>
         HEAD cwd fs pathname =
           Inr \<lparr>status = 404,
                headers = [(''content-type'', ''text/plain;charset=UTF-8'')],
                body = TextBody ''Not Found''\<rparr>)"
proof (intro conjI allI impI)
  fix f
  assume "resolveSnapshotFile cwd fs (getRequestPath pathname) = Some f"
  from serveFile_head [OF this]
  show "HEAD cwd fs pathname =
           Inr \<lparr>status = 200,
                headers = [(''cache-control'', ''public, max-age=0''),
                           (''content-type'', getMimeType f)],
                body = NoBody\<rparr>"
    by (simp only: HEAD_def)
next
  fix f content
  assume "resolveSnapshotFile cwd fs (getRequestPath pathname) = Some f"
    and "readFile fs f = Inr content"
  from serveFile_get_read [OF this]
  show "GET cwd fs pathname =
              Inr \<lparr>status = 200,
                   headers = [(''cache-control'', ''public, max-age=0''),
                              (''content-type'', getMimeType f)],
                   body = FileBody content\<rparr>"
    by (simp only: GET_def)
next
  assume n: "resolveSnapshotFile cwd fs (getRequestPath pathname) = None"
  from serveFile_unresolved [OF n]
  show "GET cwd fs pathname =
           Inr \<lparr>status = 404,
                headers = [(''content-type'', ''text/plain;charset=UTF-8'')],
                body = TextBody ''Not Found''\<rparr>"
    by (simp add: GET_def notFound_def)
  from serveFile_unresolved [OF n]
  show "HEAD cwd fs pathname =
           Inr \<lparr>status = 404,
                headers = [(''content-type'', ''text/plain;charset=UTF-8'')],
                body = TextBody ''Not Found''\<rparr>"
    by (simp add: HEAD_def notFound_def)
qed

theorem get_head_responses_witness:
  "resolveSnapshotFile ''/srv'' mirror_index (getRequestPath ''/www.anthropic.com/'')
     = Some ''/srv/reference/www.anthropic.com/index.html'' \<and>
   readFile mirror_index ''/srv/reference/www.anthropic.com/index.html'' =
     Inr ''<html>home</html>'' \<and>
   GET ''/srv'' mirror_index ''/www.anthropic.com/'' =
     Inr \<lparr>status = 200,
          headers = [(''cache-control'', ''public, max-age=0''),
                     (''content-type'', ''text/html; charset=utf-8'')],
          body = FileBody ''<html>home</html>''\<rparr> \<and>
   HEAD ''/srv'' mirror_index ''/www.anthropic.com/'' =
     Inr \<lparr>status = 200,
          headers = [(''cache-control'', ''public, max-age=0''),
                     (''content-type'', ''text/html; charset=utf-8'')],
          body = NoBody\<rparr> \<and>
   resolveSnapshotFile ''/srv'' mirror_index (getRequestPath ''/www.anthropic.com/missing'')
     = None \<and>
   GET ''/srv'' mirror_index ''/www.anthropic.com/missing'' =
     Inr \<lparr>status = 404,
          headers = [(''content-type'', ''text/plain;charset=UTF-8'')],
          body = TextBody ''Not Found''\<rparr>"
proof -
  have r: "resolveSnapshotFile ''/srv'' mirror_index (getRequestPath ''/www.anthropic.com/'')
     = Some ''/srv/reference/www.anthropic.com/index.html''" by code_simp
  have n: "resolveSnapshotFile ''/srv'' mirror_index (getRequestPath ''/www.anthropic.com/missing'')
     = None" by code_simp
  have m: "getMimeType ''/srv/reference/www.anthropic.com/index.html'' = ''text/html; charset=utf-8''"
    by code_simp
  have c: "readFile mirror_index ''/srv/reference/www.anthropic.com/index.html'' =
     Inr ''<html>home</html>''" by (simp add: readFile_def mirror_index_def)
  note t = get_head_responses [of "''/srv''" mirror_index "''/www.anthropic.com/''"]
  from t r have "HEAD ''/srv'' mirror_index ''/www.anthropic.com/'' =
     Inr \<lparr>status = 200,
          headers = [(''cache-control'', ''public, max-age=0''),
                     (''content-type'', getMimeType ''/srv/reference/www.anthropic.com/index.html'')],
          body = NoBody\<rparr>" by blast
  then have 1: "HEAD ''/srv'' mirror_index ''/www.anthropic.com/'' =
     Inr \<lparr>status = 200,
          headers = [(''cache-control'', ''public, max-age=0''),
                     (''content-type'', ''text/html; charset=utf-8'')],
          body = NoBody\<rparr>" by (simp only: m)
  from t r c have "GET ''/srv'' mirror_index ''/www.anthropic.com/'' =
     Inr \<lparr>status = 200,
          headers = [(''cache-control'', ''public, max-age=0''),
                     (''content-type'', getMimeType ''/srv/reference/www.anthropic.com/index.html'')],
          body = FileBody ''<html>home</html>''\<rparr>" by blast
  then have 2: "GET ''/srv'' mirror_index ''/www.anthropic.com/'' =
     Inr \<lparr>status = 200,
          headers = [(''cache-control'', ''public, max-age=0''),
                     (''content-type'', ''text/html; charset=utf-8'')],
          body = FileBody ''<html>home</html>''\<rparr>" by (simp only: m)
  from get_head_responses [of "''/srv''" mirror_index "''/www.anthropic.com/missing''"] n
  have 3: "GET ''/srv'' mirror_index ''/www.anthropic.com/missing'' =
     Inr \<lparr>status = 404,
          headers = [(''content-type'', ''text/plain;charset=UTF-8'')],
          body = TextBody ''Not Found''\<rparr>"
    by blast
  from r c 1 2 n 3 show ?thesis by blast
qed

subsection \<open>Content types\<close>

text \<open>
  Claim C6, as stated, fails. The resolved file \<^verbatim>\<open>logo.PNG\<close> has the extension
  \<^verbatim>\<open>.PNG\<close>, which is absent from the table, and its content type is \<^verbatim>\<open>image/png\<close>,
  not the generic binary type.
\<close>

theorem upper_case_extension_not_octet_stream:
  "resolveSnapshotFile ''/srv'' mirror_logo ''logo.PNG'' =
     Some ''/srv/reference/www.anthropic.com/logo.PNG'' \<and>
   posix_extname ''/srv/reference/www.anthropic.com/logo.PNG'' = ''.PNG'' \<and>
   map_of MIME_BY_EXT ''.PNG'' = None \<and>
   getMimeType ''/srv/reference/www.anthropic.com/logo.PNG'' = ''image/png''"
  by code_simp

text \<open>
  Claim C6, amended. The content type of a file is the table's entry for the file's
  extension in lower case, and it is \<^verbatim>\<open>application/octet-stream\<close> when the lower-cased
  extension is absent from the table.
\<close>

theorem content_type_by_lower_cased_extension:
  "((e, t) \<in> set MIME_BY_EXT \<and> toLowerCase (posix_extname f) = e \<longrightarrow> getMimeType f = t)
   \<and> (toLowerCase (posix_extname f) \<notin> fst ` set MIME_BY_EXT \<longrightarrow>
        getMimeType f = ''application/octet-stream'')"
proof (intro conjI impI)
  assume "(e, t) \<in> set MIME_BY_EXT \<and> toLowerCase (posix_extname f) = e"
  then have "map_of MIME_BY_EXT (toLowerCase (posix_extname f)) = Some t"
    using MIME_BY_EXT_distinct by (simp add: map_of_eq_Some_iff)
  then show "getMimeType f = t" by (simp add: getMimeType_def)
next
  assume "toLowerCase (posix_extname f) \<notin> fst ` set MIME_BY_EXT"
  then have "map_of MIME_BY_EXT (toLowerCase (posix_extname f)) = None"
    by (simp add: map_of_eq_None_iff)
  then show "getMimeType f = ''application/octet-stream''" by (simp add: getMimeType_def)
qed

theorem content_type_by_lower_cased_extension_witness:
  "(''.png'', ''image/png'') \<in> set MIME_BY_EXT \<and>
   toLowerCase (posix_extname ''/srv/reference/www.anthropic.com/logo.PNG'') = ''.png'' \<and>
   getMimeType ''/srv/reference/www.anthropic.com/logo.PNG'' = ''image/png'' \<and>
   toLowerCase (posix_extname ''/srv/reference/www.anthropic.com/data.bin'') \<notin> fst ` set MIME_BY_EXT \<and>
   getMimeType ''/srv/reference/www.anthropic.com/data.bin'' = ''application/octet-stream''"
proof -
  have m: "(''.png'', ''image/png'') \<in> set MIME_BY_EXT" by (simp add: MIME_BY_EXT_def)
  have l: "toLowerCase (posix_extname ''/srv/reference/www.anthropic.com/logo.PNG'') = ''.png''"
    by code_simp
  have b: "toLowerCase (posix_extname ''/srv/reference/www.anthropic.com/data.bin'') = ''.bin''"
    by code_simp
  have n: "''.bin'' \<notin> fst ` set MIME_BY_EXT" by (simp add: MIME_BY_EXT_def)
  from content_type_by_lower_cased_extension
         [of "''.png''" "''image/png''" "''/srv/reference/www.anthropic.com/logo.PNG''"] m l
  have 1: "getMimeType ''/srv/reference/www.anthropic.com/logo.PNG'' = ''image/png''" by blast
  from content_type_by_lower_cased_extension
         [of "''.png''" "''image/png''" "''/srv/reference/www.anthropic.com/data.bin''"] b n
  have 2: "getMimeType ''/srv/reference/www.anthropic.com/data.bin'' = ''application/octet-stream''"
    by simp
  from m l 1 2 b n show ?thesis by simp
qed

subsection \<open>Trailing separators and parent-directory segments\<close>

text \<open>
  Claim C8. For every request path and every file system, the request path followed
  by a separator resolves as the request path does.
\<close>

theorem trailing_slash_ignored:
  "resolveSnapshotFile cwd fs (p @ ''/'') = resolveSnapshotFile cwd fs p"
  by (simp only: resolveSnapshotFile_def candidates_snoc_slash)

text \<open>
  Claim C9. For every request path and every file system, the request path resolves
  as the normalization of \<^verbatim>\<open>/\<close> followed by the path, with its leading separators
  stripped, does. A path made of \<^verbatim>\<open>..\<close> segments only resolves as the empty path,
  which gives the root's \<^verbatim>\<open>index.html\<close> when that file exists.
\<close>

theorem dotdot_absorbed:
  "resolveSnapshotFile cwd fs (stripLeadingSlashes (posix_normalize (CHR ''/'' # p)))
     = resolveSnapshotFile cwd fs p
   \<and> resolveSnapshotFile cwd fs (join_slash (replicate (Suc k) ''..''))
     = resolveSnapshotFile cwd fs []
   \<and> (posix_isAbsolute cwd \<longrightarrow> exists fs (SNAPSHOT_ROOT cwd @ ''/index.html'') \<longrightarrow>
        resolveSnapshotFile cwd fs [] = Some (SNAPSHOT_ROOT cwd @ ''/index.html''))"
proof (intro conjI impI)
  show "resolveSnapshotFile cwd fs (stripLeadingSlashes (posix_normalize (CHR ''/'' # p)))
     = resolveSnapshotFile cwd fs p"
    unfolding sanitizePath_normalize [symmetric]
    by (simp only: resolveSnapshotFile_def candidates_sanitizePath)
  show "resolveSnapshotFile cwd fs (join_slash (replicate (Suc k) ''..''))
     = resolveSnapshotFile cwd fs []"
    by (simp only: resolveSnapshotFile_def candidates_dotdots)
next
  assume a: "posix_isAbsolute cwd"
    and e: "exists fs (SNAPSHOT_ROOT cwd @ ''/index.html'')"
  have "candidates [] = [''index.html'']" by (simp add: candidates_eq cleanSegs_def)
  with e show "resolveSnapshotFile cwd fs [] = Some (SNAPSHOT_ROOT cwd @ ''/index.html'')"
    by (simp add: resolveSnapshotFile_eq [OF a])
qed

theorem dotdot_absorbed_witness:
  "posix_isAbsolute ''/srv'' \<and>
   exists mirror_index (SNAPSHOT_ROOT ''/srv'' @ ''/index.html'') \<and>
   resolveSnapshotFile ''/srv'' mirror_index ''../..'' =
     Some ''/srv/reference/www.anthropic.com/index.html''"
proof -
  have a: "posix_isAbsolute ''/srv''" by (simp add: posix_isAbsolute_def)
  have e: "exists mirror_index (SNAPSHOT_ROOT ''/srv'' @ ''/index.html'')" by code_simp
  have r: "SNAPSHOT_ROOT ''/srv'' @ ''/index.html'' = ''/srv/reference/www.anthropic.com/index.html''"
    by code_simp
  have j: "join_slash (replicate (Suc 1) ''..'') = ''../..''" by code_simp
  from dotdot_absorbed [of "''/srv''" mirror_index "[]" 1] a e
  show ?thesis unfolding j r by simp
qed

subsection \<open>The extension's case\<close>

text \<open>
  Claim C10. For every file path, the content type is that of the path with its
  extension lower-cased; a file whose extension is \<^verbatim>\<open>.PNG\<close> has the content type
  \<^verbatim>\<open>image/png\<close>.
\<close>

theorem extension_case_insensitive:
  "getMimeType (lowerCaseExtension f) = getMimeType f
   \<and> (posix_extname f = ''.PNG'' \<longrightarrow> getMimeType f = ''image/png'')"
proof
  show "getMimeType (lowerCaseExtension f) = getMimeType f"
    by (simp add: getMimeType_def posix_extname_lowerCaseExtension toLowerCase_idem)
  show "posix_extname f = ''.PNG'' \<longrightarrow> getMimeType f = ''image/png''"
  proof
    assume e: "posix_extname f = ''.PNG''"
    have "toLowerCase ''.PNG'' = ''.png''" by code_simp
    moreover have "map_of MIME_BY_EXT ''.png'' = Some ''image/png''" by code_simp
    ultimately show "getMimeType f = ''image/png''" by (simp add: getMimeType_def e)
  qed
qed

theorem extension_case_insensitive_witness:
  "posix_extname ''/srv/reference/www.anthropic.com/img/logo.PNG'' = ''.PNG'' \<and>
   lowerCaseExtension ''/srv/reference/www.anthropic.com/img/logo.PNG''
     = ''/srv/reference/www.anthropic.com/img/logo.png'' \<and>
   getMimeType ''/srv/reference/www.anthropic.com/img/logo.PNG'' = ''image/png'' \<and>
   getMimeType ''/srv/reference/www.anthropic.com/img/logo.png'' = ''image/png''"
proof -
  have e: "posix_extname ''/srv/reference/www.anthropic.com/img/logo.PNG'' = ''.PNG''"
    by code_simp
  have l: "lowerCaseExtension ''/srv/reference/www.anthropic.com/img/logo.PNG''
     = ''/srv/reference/www.anthropic.com/img/logo.png''" by code_simp
  note t = extension_case_insensitive [of "''/srv/reference/www.anthropic.com/img/logo.PNG''"]
  from t e have 1: "getMimeType ''/srv/reference/www.anthropic.com/img/logo.PNG'' = ''image/png''"
    by blast
  from t have "getMimeType (lowerCaseExtension ''/srv/reference/www.anthropic.com/img/logo.PNG'')
      = getMimeType ''/srv/reference/www.anthropic.com/img/logo.PNG''" by blast
  with 1 have 2: "getMimeType ''/srv/reference/www.anthropic.com/img/logo.png'' = ''image/png''"
    by (simp only: l)
  from e l 1 2 show ?thesis by blast
qed

end
